theory Spec2Isabelle
  imports Complex_Main "HOL-Library.Log_Nat"
begin

section \<open>Images, rectangles and canvases\<close>

text \<open>
  A pixel size or position is a pair of Python ints. A rectangle is the box
  \<open>(x0, y0, x1, y1)\<close> that Pillow uses: left and upper edge inclusive, right and
  lower edge exclusive. Pixel contents are not modelled: an image is its size, together
  with a log of what was pasted onto it and which guidelines were drawn on it.
\<close>

type_synonym dims = "int \<times> int"
type_synonym rect = "int \<times> int \<times> int \<times> int"
type_synonym point = "rat \<times> rat"

datatype guideline =
    Solid rect int
  | Dashes "(point \<times> point) list"

record image =
  width :: int
  height :: int
  pastes :: "rect list"
  guides :: "guideline list"

definition new_image :: "dims \<Rightarrow> image" where
  \<comment> \<open>\<open>Image.new("RGB", size, "white")\<close>\<close>
  "new_image sz = \<lparr>width = fst sz, height = snd sz, pastes = [], guides = []\<rparr>"

definition size_of :: "image \<Rightarrow> dims" where
  "size_of img = (width img, height img)"

definition resize :: "image \<Rightarrow> dims \<Rightarrow> image" where
  \<comment> \<open>\<open>img.resize(size, ...)\<close>: Pillow returns a new image of the requested size\<close>
  "resize img sz = new_image sz"

definition crop :: "image \<Rightarrow> rect \<Rightarrow> image" where
  \<comment> \<open>\<open>img.crop((left, upper, right, lower))\<close>: a new image of size
      \<open>(right - left, lower - upper)\<close>\<close>
  "crop img box = (case box of (left, upper, right, lower) \<Rightarrow> new_image (right - left, lower - upper))"

definition paste_box :: "image \<Rightarrow> int \<times> int \<Rightarrow> rect" where
  \<comment> \<open>the region \<open>dest.paste(img, (x, y))\<close> covers, before Pillow clips it to \<open>dest\<close>\<close>
  "paste_box img pos = (fst pos, snd pos, fst pos + width img, snd pos + height img)"

definition paste :: "image \<Rightarrow> image \<Rightarrow> int \<times> int \<Rightarrow> image" where
  "paste dest img pos = dest\<lparr>pastes := pastes dest @ [paste_box img pos]\<rparr>"

definition draw_guide :: "image \<Rightarrow> guideline \<Rightarrow> image" where
  "draw_guide dest g = dest\<lparr>guides := guides dest @ [g]\<rparr>"

definition rect_width :: "rect \<Rightarrow> int" where
  "rect_width r = (case r of (x0, y0, x1, y1) \<Rightarrow> x1 - x0)"

definition rect_height :: "rect \<Rightarrow> int" where
  "rect_height r = (case r of (x0, y0, x1, y1) \<Rightarrow> y1 - y0)"

definition inside :: "dims \<Rightarrow> rect \<Rightarrow> bool" where
  \<comment> \<open>the rectangle lies fully within a canvas of the given size\<close>
  "inside sz r = (case r of (x0, y0, x1, y1) \<Rightarrow>
     0 \<le> x0 \<and> 0 \<le> y0 \<and> x1 \<le> fst sz \<and> y1 \<le> snd sz)"

definition overlap :: "rect \<Rightarrow> rect \<Rightarrow> bool" where
  \<comment> \<open>the two rectangles share at least one pixel\<close>
  "overlap r s = (case r of (x0, y0, x1, y1) \<Rightarrow> case s of (u0, v0, u1, v1) \<Rightarrow>
     max x0 u0 < min x1 u1 \<and> max y0 v0 < min y1 v1)"

definition margins :: "dims \<Rightarrow> rect \<Rightarrow> int \<times> int \<times> int \<times> int" where
  \<comment> \<open>what a canvas of the given size keeps free to the left of, above, to the right of and
      below the rectangle\<close>
  "margins sz r = (case r of (x0, y0, x1, y1) \<Rightarrow> (x0, y0, fst sz - x1, snd sz - y1))"

fun pairwise_disjoint :: "rect list \<Rightarrow> bool" where
  "pairwise_disjoint [] = True"
| "pairwise_disjoint (r # rs) = (list_all (\<lambda>s. \<not> overlap r s) rs \<and> pairwise_disjoint rs)"

definition cells :: "int \<Rightarrow> int \<Rightarrow> (int \<times> int) list" where
  \<comment> \<open>\<open>for row in range(rows): for col in range(cols)\<close>, in iteration order\<close>
  "cells nrows ncols = concat (map (\<lambda>row. map (\<lambda>col. (row, col)) [0..ncols - 1]) [0..nrows - 1])"


section \<open>Python floats\<close>

text \<open>
  A Python float is an IEEE 754 binary64 number; a finite one is a rational. The
  arithmetic of the scripts is modelled by exact rational arithmetic followed by
  rounding to 53 significant bits, to nearest, ties to even. The exponent range of
  binary64 is not modelled (no overflow to infinity, no subnormal numbers): results
  agree with binary64 whenever magnitudes stay between \<open>2\<^sup>-\<^sup>1\<^sup>0\<^sup>2\<^sup>2\<close> and \<open>2\<^sup>1\<^sup>0\<^sup>2\<^sup>3\<close>,
  which covers every image dimension and pixel coordinate Pillow can represent.
\<close>

definition round_half_even :: "rat \<Rightarrow> int" where
  "round_half_even y = (let f = \<lfloor>y\<rfloor>; d = y - of_int f in
      if d < 1/2 then f else if 1/2 < d then f + 1 else if even f then f else f + 1)"

definition binary_exponent :: "rat \<Rightarrow> int" where
  \<comment> \<open>for \<open>x > 0\<close>, the \<open>k\<close> with \<open>2\<^sup>k \<le> x < 2\<^sup>k\<^sup>+\<^sup>1\<close>\<close>
  "binary_exponent x = (let (p, q) = quotient_of x; d = bitlen p - bitlen q
                        in if 2 powi d \<le> x then d else d - 1)"

definition round_double :: "rat \<Rightarrow> rat" where
  "round_double x = (if x = 0 then 0 else
      let e = binary_exponent \<bar>x\<bar> - 52;
          m = round_half_even (\<bar>x\<bar> / 2 powi e)
      in sgn x * of_int m * 2 powi e)"

datatype error = ZeroDivisionError | FileNotFoundError | UnidentifiedImageError | OSError

definition sum_bind :: "error + 'a \<Rightarrow> ('a \<Rightarrow> error + 'b) \<Rightarrow> error + 'b" where
  \<comment> \<open>sequencing: an exception raised by the first computation skips the second\<close>
  "sum_bind m f = (case m of Inl e \<Rightarrow> Inl e | Inr x \<Rightarrow> f x)"

definition float_of_int :: "int \<Rightarrow> rat" where
  \<comment> \<open>the conversion Python applies to an int operand of a mixed int/float operation\<close>
  "float_of_int n = round_double (of_int n)"

definition int_truediv :: "int \<Rightarrow> int \<Rightarrow> error + rat" where
  \<comment> \<open>\<open>a / b\<close> on two ints: the correctly rounded quotient\<close>
  "int_truediv a b =
     (if b = 0 then Inl ZeroDivisionError else Inr (round_double (of_int a / of_int b)))"

definition float_truediv :: "rat \<Rightarrow> rat \<Rightarrow> error + rat" where
  \<comment> \<open>\<open>a / b\<close> on two floats\<close>
  "float_truediv a b = (if b = 0 then Inl ZeroDivisionError else Inr (round_double (a / b)))"

definition float_mul :: "rat \<Rightarrow> rat \<Rightarrow> rat" where
  "float_mul a b = round_double (a * b)"

definition float_add :: "rat \<Rightarrow> rat \<Rightarrow> rat" where
  "float_add a b = round_double (a + b)"

definition py_int :: "rat \<Rightarrow> int" where
  \<comment> \<open>\<open>int(f)\<close> truncates towards zero\<close>
  "py_int f = (if 0 \<le> f then \<lfloor>f\<rfloor> else \<lceil>f\<rceil>)"

text \<open>
  \<open>x ** 0.5\<close> is C's \<open>pow(x, 0.5)\<close>, whose rounding neither the scripts nor IEEE 754
  fix. The functions below take it as the parameter \<open>pow_half\<close>. For concrete runs,
  \<open>sqrt_double\<close> is the correctly rounded square root.
\<close>

function isqrt :: "int \<Rightarrow> int" where
  \<comment> \<open>the integer square root, two bits at a time\<close>
  "isqrt n = (if n < 2 then n else
     let r = 2 * isqrt (n div 4) in if (r + 1) * (r + 1) \<le> n then r + 1 else r)"
  by pat_completeness auto
termination
  by (relation "measure nat") auto

declare isqrt.simps [simp del]

definition sqrt_double :: "rat \<Rightarrow> rat" where
  "sqrt_double x = (if x \<le> 0 then 0 else
     let e = binary_exponent x div 2 - 52;
         y = x / 2 powi (2 * e);
         m0 = isqrt \<lfloor>y\<rfloor>;
         mid = (of_int m0 + 1/2) * (of_int m0 + 1/2);
         m = (if y < mid then m0 else if mid < y then m0 + 1 else if even m0 then m0 else m0 + 1)
     in of_int m * 2 powi e)"


section \<open>Aspect-ratio centre crop (both scripts)\<close>

text \<open>
  \<open>crop_image_to_aspect_ratio\<close> of \<open>generate_passport_layout_v2.py\<close>; lines 19 to 30
  of \<open>generate_passport_layout.py\<close> are the same statements inline. \<open>crop_box\<close> is the
  box handed to \<open>img.crop\<close>.
\<close>

definition crop_box :: "image \<Rightarrow> rat \<Rightarrow> error + rect" where
  "crop_box img aspect_target =
     sum_bind (int_truediv (width img) (height img)) (\<lambda>img_aspect.
       if img_aspect > aspect_target then
         (let new_width = py_int (float_mul (float_of_int (height img)) aspect_target);
              left = (width img - new_width) div 2
          in Inr (left, 0, left + new_width, height img))
       else
         sum_bind (float_truediv (float_of_int (width img)) aspect_target) (\<lambda>q.
           let new_height = py_int q;
               top = (height img - new_height) div 2
           in Inr (0, top, width img, top + new_height)))"

definition crop_image_to_aspect_ratio :: "image \<Rightarrow> rat \<Rightarrow> error + image" where
  "crop_image_to_aspect_ratio img aspect_target =
     sum_bind (crop_box img aspect_target) (\<lambda>box. Inr (crop img box))"


section \<open>Variant A: \<open>generate_passport_layout.py\<close>\<close>

definition passport_px :: dims where
  "passport_px = (413, 531)"

definition border :: int where
  "border = 20"

definition final_photo_size :: dims where
  "final_photo_size = (fst passport_px + 2 * border, snd passport_px + 2 * border)"

definition layout_size :: dims where
  "layout_size = (1200, 1800)"

definition aspect_target :: rat where
  \<comment> \<open>\<open>passport_px[0] / passport_px[1]\<close>\<close>
  "aspect_target = round_double (of_int (fst passport_px) / of_int (snd passport_px))"

definition framed :: "image \<Rightarrow> image" where
  \<comment> \<open>lines 33 to 35: resize the cropped image, paste it onto a white frame\<close>
  "framed img =
     (let resized = resize img passport_px
      in paste (new_image final_photo_size) resized (border, border))"

definition rows :: int where
  "rows = 2"

definition cols :: int where
  "cols = 3"

definition spacing :: "int \<Rightarrow> int \<Rightarrow> int \<Rightarrow> int" where
  \<comment> \<open>\<open>(layout - (n * photo)) // (n + 1)\<close>; Python's \<open>//\<close> is floor division, as \<open>div\<close> on \<open>int\<close>\<close>
  "spacing extent n photo = (extent - n * photo) div (n + 1)"

definition x_spacing :: int where
  "x_spacing = spacing (fst layout_size) cols (fst final_photo_size)"

definition y_spacing :: int where
  "y_spacing = spacing (snd layout_size) rows (snd final_photo_size)"

definition cell_pos :: "int \<times> int \<Rightarrow> int \<times> int" where
  \<comment> \<open>\<open>x = x_spacing + col * (w + x_spacing)\<close>, \<open>y = y_spacing + row * (h + y_spacing)\<close>\<close>
  "cell_pos rc = (x_spacing + snd rc * (fst final_photo_size + x_spacing),
                  y_spacing + fst rc * (snd final_photo_size + y_spacing))"

definition place_cell :: "image \<Rightarrow> image \<Rightarrow> int \<times> int \<Rightarrow> image" where
  \<comment> \<open>the loop body: \<open>layout.paste\<close>, then \<open>draw.rectangle(..., width=2)\<close>\<close>
  "place_cell photo layout rc =
     (let (x, y) = cell_pos rc;
          layout1 = paste layout photo (x, y)
      in draw_guide layout1
           (Solid (x, y, x + fst final_photo_size, y + snd final_photo_size) 2))"

definition compose_grid :: "image \<Rightarrow> image" where
  "compose_grid photo = foldl (place_cell photo) (new_image layout_size) (cells rows cols)"


section \<open>Variant B: \<open>generate_passport_layout_v2.py\<close>\<close>

definition PASSPORT_PHOTO_PX :: dims where
  "PASSPORT_PHOTO_PX = (413, 531)"

definition ASPECT_RATIO :: rat where
  \<comment> \<open>\<open>PASSPORT_PHOTO_PX[0] / PASSPORT_PHOTO_PX[1]\<close>\<close>
  "ASPECT_RATIO = round_double (of_int (fst PASSPORT_PHOTO_PX) / of_int (snd PASSPORT_PHOTO_PX))"

definition LAYOUT_PX :: dims where
  "LAYOUT_PX = (1200, 1800)"

definition PDF_RESOLUTION :: rat where
  "PDF_RESOLUTION = 300"

definition GRID_ROWS :: int where
  "GRID_ROWS = 3"

definition GRID_COLS :: int where
  "GRID_COLS = 2"

definition PHOTO_BORDER_PX :: int where
  "PHOTO_BORDER_PX = 20"

definition GUIDELINE_WIDTH :: int where
  "GUIDELINE_WIDTH = 2"

definition DOTTED_LINE_GAP :: int where
  "DOTTED_LINE_GAP = 10"

subsection \<open>Dotted guidelines\<close>

definition num_dots :: "(rat \<Rightarrow> rat) \<Rightarrow> int \<times> int \<Rightarrow> int \<times> int \<Rightarrow> int \<Rightarrow> int \<Rightarrow> error + int" where
  \<comment> \<open>lines 41 to 44 of \<open>draw_dotted_line\<close>\<close>
  "num_dots pow_half start_xy end_xy wd gap =
     (let dist_x = fst end_xy - fst start_xy;
          dist_y = snd end_xy - snd start_xy;
          length = pow_half (float_of_int (dist_x ^ 2 + dist_y ^ 2))
      in sum_bind (float_truediv length (float_of_int (wd + gap))) (\<lambda>q. Inr (py_int q)))"

definition dash :: "int \<times> int \<Rightarrow> int \<times> int \<Rightarrow> int \<Rightarrow> int \<Rightarrow> error + point \<times> point" where
  \<comment> \<open>the loop body, lines 46 to 48: the segment handed to \<open>draw.line\<close> for index \<open>i\<close>\<close>
  "dash start_xy end_xy n i =
     (let dist_x = fst end_xy - fst start_xy;
          dist_y = snd end_xy - snd start_xy
      in sum_bind (int_truediv (dist_x * i) n) (\<lambda>ax.
         sum_bind (int_truediv (dist_y * i) n) (\<lambda>ay.
         let start_pos = (float_add (float_of_int (fst start_xy)) ax,
                          float_add (float_of_int (snd start_xy)) ay)
         in sum_bind (float_truediv (float_mul (float_of_int dist_x) (float_add (float_of_int i) (1/2)))
                        (float_of_int n)) (\<lambda>px.
            sum_bind (float_truediv (float_mul (float_of_int dist_y) (float_add (float_of_int i) (1/2)))
                        (float_of_int n)) (\<lambda>py.
            let end_pos = (float_add (float_of_int (fst start_xy)) px,
                           float_add (float_of_int (snd start_xy)) py)
            in Inr (start_pos, end_pos))))))"

fun for_each :: "('a \<Rightarrow> error + 'b) \<Rightarrow> 'a list \<Rightarrow> error + 'b list" where
  \<comment> \<open>a \<open>for\<close> loop that collects what each iteration draws and stops at the first exception\<close>
  "for_each f [] = Inr []"
| "for_each f (x # xs) = sum_bind (f x) (\<lambda>y. sum_bind (for_each f xs) (\<lambda>ys. Inr (y # ys)))"

definition draw_dotted_line ::
  "(rat \<Rightarrow> rat) \<Rightarrow> int \<times> int \<Rightarrow> int \<times> int \<Rightarrow> int \<Rightarrow> int \<Rightarrow> error + (point \<times> point) list" where
  \<comment> \<open>\<open>for i in range(num_dots)\<close>: \<open>[0..n - 1]\<close> is empty when \<open>n \<le> 0\<close>\<close>
  "draw_dotted_line pow_half start_xy end_xy wd gap =
     sum_bind (num_dots pow_half start_xy end_xy wd gap) (\<lambda>n.
       for_each (dash start_xy end_xy n) [0..n - 1])"

definition draw_dotted_rectangle ::
  "(rat \<Rightarrow> rat) \<Rightarrow> rect \<Rightarrow> int \<Rightarrow> int \<Rightarrow> error + (point \<times> point) list" where
  "draw_dotted_rectangle pow_half xy wd gap = (case xy of (x0, y0, x1, y1) \<Rightarrow>
     sum_bind (draw_dotted_line pow_half (x0, y0) (x1, y0) wd gap) (\<lambda>d1.
     sum_bind (draw_dotted_line pow_half (x1, y0) (x1, y1) wd gap) (\<lambda>d2.
     sum_bind (draw_dotted_line pow_half (x1, y1) (x0, y1) wd gap) (\<lambda>d3.
     sum_bind (draw_dotted_line pow_half (x0, y1) (x0, y0) wd gap) (\<lambda>d4.
     Inr (d1 @ d2 @ d3 @ d4))))))"

subsection \<open>The dotted line in the words of the specification\<close>

text \<open>
  The specification speaks of the Euclidean length of the segment and of the points at
  the parameters \<open>i/n\<close> and \<open>(i + 0.5)/n\<close> along it. These are the exact quantities, a
  real and exact rational points, against which the doubles of \<open>draw_dotted_line\<close> are
  compared; \<open>close_to\<close> bounds the distance on each axis.
\<close>

definition euclidean_length :: "int \<times> int \<Rightarrow> int \<times> int \<Rightarrow> real" where
  "euclidean_length start_xy end_xy =
     sqrt (of_int ((fst end_xy - fst start_xy) ^ 2 + (snd end_xy - snd start_xy) ^ 2))"

definition point_at :: "int \<times> int \<Rightarrow> int \<times> int \<Rightarrow> rat \<Rightarrow> point" where
  "point_at start_xy end_xy t =
     (of_int (fst start_xy) + of_int (fst end_xy - fst start_xy) * t,
      of_int (snd start_xy) + of_int (snd end_xy - snd start_xy) * t)"

definition close_to :: "rat \<Rightarrow> point \<Rightarrow> point \<Rightarrow> bool" where
  "close_to tol p q = (\<bar>fst p - fst q\<bar> \<le> tol \<and> \<bar>snd p - snd q\<bar> \<le> tol)"

subsection \<open>Framing and the centred grid\<close>

definition final_photo_size_v2 :: dims where
  "final_photo_size_v2 =
     (fst PASSPORT_PHOTO_PX + 2 * PHOTO_BORDER_PX, snd PASSPORT_PHOTO_PX + 2 * PHOTO_BORDER_PX)"

definition framed_photo :: "image \<Rightarrow> image" where
  \<comment> \<open>lines 107 to 115\<close>
  "framed_photo cropped_img =
     (let resized_img = resize cropped_img PASSPORT_PHOTO_PX
      in paste (new_image final_photo_size_v2) resized_img (PHOTO_BORDER_PX, PHOTO_BORDER_PX))"

definition block_width :: int where
  "block_width = GRID_COLS * fst final_photo_size_v2"

definition block_height :: int where
  "block_height = GRID_ROWS * snd final_photo_size_v2"

definition start_x :: int where
  "start_x = (fst LAYOUT_PX - block_width) div 2"

definition start_y :: int where
  "start_y = (snd LAYOUT_PX - block_height) div 2"

definition cell_pos_v2 :: "int \<times> int \<Rightarrow> int \<times> int" where
  \<comment> \<open>\<open>x = start_x + col * w\<close>, \<open>y = start_y + row * h\<close>\<close>
  "cell_pos_v2 rc = (start_x + snd rc * fst final_photo_size_v2,
                     start_y + fst rc * snd final_photo_size_v2)"

definition place_cell_v2 :: "(rat \<Rightarrow> rat) \<Rightarrow> image \<Rightarrow> image \<Rightarrow> int \<times> int \<Rightarrow> error + image" where
  \<comment> \<open>the loop body, lines 133 to 143\<close>
  "place_cell_v2 pow_half photo layout rc =
     (let (x, y) = cell_pos_v2 rc;
          layout1 = paste layout photo (x, y)
      in sum_bind (draw_dotted_rectangle pow_half
                     (x, y, x + fst final_photo_size_v2, y + snd final_photo_size_v2)
                     GUIDELINE_WIDTH DOTTED_LINE_GAP)
           (\<lambda>ds. Inr (draw_guide layout1 (Dashes ds))))"

fun place_cells :: "(rat \<Rightarrow> rat) \<Rightarrow> image \<Rightarrow> image \<Rightarrow> (int \<times> int) list \<Rightarrow> error + image" where
  "place_cells pow_half photo layout [] = Inr layout"
| "place_cells pow_half photo layout (rc # rcs) =
     sum_bind (place_cell_v2 pow_half photo layout rc) (\<lambda>layout1.
       place_cells pow_half photo layout1 rcs)"

definition compose_grid_v2 :: "(rat \<Rightarrow> rat) \<Rightarrow> image \<Rightarrow> error + image" where
  "compose_grid_v2 pow_half photo =
     place_cells pow_half photo (new_image LAYOUT_PX) (cells GRID_ROWS GRID_COLS)"


section \<open>The programs: files in, messages, exit status and files out\<close>

text \<open>
  The file system maps a path to what is stored there; \<open>writable\<close> tells whether
  \<open>layout.save\<close> can write to a path. A run ends with an exit status, the lines it
  printed, and the file system it leaves. An exception that no handler catches ends
  the run with Python's traceback and exit status 1.
\<close>

record document =
  pages :: "image list"
  resolution :: rat

datatype stored = ImageFile image | PdfFile document | OtherFile

record world =
  files :: "string \<Rightarrow> stored option"
  writable :: "string \<Rightarrow> bool"

datatype message =
    Error_input_not_found string
  | Error_could_not_open
  | Cropping
  | Creating_layout int int
  | Success string
  | Error_could_not_save
  | Output_saved
  | Traceback error

record outcome =
  exit_status :: int
  printed :: "message list"
  after :: world

definition image_open :: "world \<Rightarrow> string \<Rightarrow> error + image" where
  \<comment> \<open>\<open>Image.open(path)\<close>\<close>
  "image_open w p = (case files w p of
       None \<Rightarrow> Inl FileNotFoundError
     | Some (ImageFile img) \<Rightarrow> Inr img
     | Some _ \<Rightarrow> Inl UnidentifiedImageError)"

definition save_pdf :: "world \<Rightarrow> image \<Rightarrow> string \<Rightarrow> rat \<Rightarrow> error + world" where
  \<comment> \<open>\<open>layout.save(path, "PDF", resolution=...)\<close>: the one frame of \<open>layout\<close> becomes the
      one page\<close>
  "save_pdf w layout p res =
     (if writable w p
      then Inr (w\<lparr>files := (files w)(p \<mapsto> PdfFile \<lparr>pages = [layout], resolution = res\<rparr>)\<rparr>)
      else Inl OSError)"

definition create_photo_layout :: "(rat \<Rightarrow> rat) \<Rightarrow> world \<Rightarrow> string \<Rightarrow> string \<Rightarrow> outcome" where
  "create_photo_layout pow_half w photo_path output_path =
     (case image_open w photo_path of
        Inl FileNotFoundError \<Rightarrow>
          \<lparr>exit_status = 1, printed = [Error_input_not_found photo_path], after = w\<rparr>
      | Inl _ \<Rightarrow>
          \<lparr>exit_status = 1, printed = [Error_could_not_open], after = w\<rparr>
      | Inr source_img \<Rightarrow>
         (case crop_image_to_aspect_ratio source_img ASPECT_RATIO of
            Inl e \<Rightarrow> \<lparr>exit_status = 1, printed = [Cropping, Traceback e], after = w\<rparr>
          | Inr cropped_img \<Rightarrow>
             (case compose_grid_v2 pow_half (framed_photo cropped_img) of
                Inl e \<Rightarrow>
                  \<lparr>exit_status = 1,
                   printed = [Cropping, Creating_layout GRID_ROWS GRID_COLS, Traceback e],
                   after = w\<rparr>
              | Inr layout \<Rightarrow>
                 (case save_pdf w layout output_path PDF_RESOLUTION of
                    Inl e \<Rightarrow>
                      \<lparr>exit_status = 1,
                       printed = [Cropping, Creating_layout GRID_ROWS GRID_COLS, Error_could_not_save],
                       after = w\<rparr>
                  | Inr w1 \<Rightarrow>
                      \<lparr>exit_status = 0,
                       printed = [Cropping, Creating_layout GRID_ROWS GRID_COLS, Success output_path],
                       after = w1\<rparr>))))"

definition photo_path :: string where
  "photo_path = ''passport_photo.jpg''"

definition output_pdf :: string where
  "output_pdf = ''passport_layout.pdf''"

definition variant_a :: "world \<Rightarrow> outcome" where
  \<comment> \<open>the whole of \<open>generate_passport_layout.py\<close>; it has no exception handler\<close>
  "variant_a w =
     (case image_open w photo_path of
        Inl e \<Rightarrow> \<lparr>exit_status = 1, printed = [Traceback e], after = w\<rparr>
      | Inr img \<Rightarrow>
         (case crop_image_to_aspect_ratio img aspect_target of
            Inl e \<Rightarrow> \<lparr>exit_status = 1, printed = [Traceback e], after = w\<rparr>
          | Inr img1 \<Rightarrow>
             (case save_pdf w (compose_grid (framed img1)) output_pdf 300 of
                Inl e \<Rightarrow> \<lparr>exit_status = 1, printed = [Traceback e], after = w\<rparr>
              | Inr w1 \<Rightarrow> \<lparr>exit_status = 0, printed = [Output_saved], after = w1\<rparr>)))"


section \<open>Rounding to a double: nearest, monotone, exact on short dyadic numbers\<close>

lemma rhe_near: "\<bar>of_int (round_half_even y) - y\<bar> \<le> 1/2"
proof -
  have "of_int \<lfloor>y\<rfloor> \<le> y" "y < of_int \<lfloor>y\<rfloor> + 1" by linarith+
  then show ?thesis
    unfolding round_half_even_def Let_def by (simp add: abs_le_iff)
qed

lemma rhe_of_int: "round_half_even (of_int n) = n"
  by (simp add: round_half_even_def)

lemma rhe_mono: assumes "x \<le> y" shows "round_half_even x \<le> round_half_even y"
proof (rule ccontr)
  assume "\<not> ?thesis"
  then have lt: "round_half_even y + 1 \<le> round_half_even x" by simp
  then have "(of_int (round_half_even y) :: rat) + 1 \<le> of_int (round_half_even x)"
    by (metis of_int_1 of_int_add of_int_le_iff)
  moreover have "\<bar>of_int (round_half_even y) - y\<bar> \<le> 1/2" "\<bar>of_int (round_half_even x) - x\<bar> \<le> 1/2"
    by (rule rhe_near)+
  ultimately have "x = y" using assms by linarith
  with lt show False by simp
qed

lemma bitlen_powi:
  assumes "0 < p"
  shows "(2::rat) powi (bitlen p - 1) \<le> of_int p" "of_int p < (2::rat) powi bitlen p"
proof -
  from bitlen_bounds[OF assms] have a: "2 ^ nat (bitlen p - 1) \<le> p" and b: "p < 2 ^ nat (bitlen p)"
    by auto
  have ge1: "1 \<le> bitlen p" using assms by (auto simp: bitlen_alt_def)
  have "(of_int (2 ^ nat (bitlen p - 1)) :: rat) \<le> of_int p" using a by (simp only: of_int_le_iff)
  then show "(2::rat) powi (bitlen p - 1) \<le> of_int p" using ge1 by (simp add: power_int_def)
  have "(of_int p :: rat) < of_int (2 ^ nat (bitlen p))" using b by (simp only: of_int_less_iff)
  then show "of_int p < (2::rat) powi bitlen p" using ge1 by (simp add: power_int_def)
qed

lemma binary_exponent_bounds:
  assumes "0 < x"
  shows "2 powi binary_exponent x \<le> x" "x < 2 powi (binary_exponent x + 1)"
proof -
  obtain p q where pq: "quotient_of x = (p, q)" by (cases "quotient_of x")
  then have q: "0 < q" and x: "x = of_int p / of_int q"
    by (auto simp: quotient_of_denom_pos quotient_of_div)
  with assms have p: "0 < p" by (simp add: zero_less_divide_iff)
  define d where "d = bitlen p - bitlen q"
  have be: "binary_exponent x = (if 2 powi d \<le> x then d else d - 1)"
    by (simp add: binary_exponent_def pq d_def Let_def)
  have qpos: "(0::rat) < of_int q" using q by simp
  have up: "x < 2 powi (d + 1)"
  proof -
    have "of_int p < (2::rat) powi bitlen p" by (rule bitlen_powi[OF p])
    also have "\<dots> = 2 powi (d + 1) * 2 powi (bitlen q - 1)"
      by (simp add: d_def flip: power_int_add)
    also have "\<dots> \<le> 2 powi (d + 1) * of_int q"
      using bitlen_powi(1)[OF q] by (intro mult_left_mono) auto
    finally show ?thesis using qpos by (simp add: x pos_divide_less_eq)
  qed
  have lo: "2 powi (d - 1) \<le> x"
  proof -
    have "2 powi (d - 1) * of_int q \<le> 2 powi (d - 1) * (2::rat) powi bitlen q"
      using bitlen_powi(2)[OF q] by (intro mult_left_mono) auto
    also have "\<dots> = 2 powi (bitlen p - 1)"
      by (simp add: d_def flip: power_int_add)
    also have "\<dots> \<le> of_int p" by (rule bitlen_powi[OF p])
    finally show ?thesis using qpos by (simp add: x pos_le_divide_eq)
  qed
  show "2 powi binary_exponent x \<le> x" using lo by (auto simp: be)
  show "x < 2 powi (binary_exponent x + 1)" using up by (auto simp: be)
qed

lemma powi2_less_imp: "(2::rat) powi a < 2 powi b \<Longrightarrow> a < b"
  by (rule ccontr) (simp add: not_less power_int_increasing leD)

lemma binary_exponent_mono:
  assumes "0 < x" "x \<le> y"
  shows "binary_exponent x \<le> binary_exponent y"
proof -
  have "2 powi binary_exponent x \<le> x" using binary_exponent_bounds(1) assms by simp
  also note \<open>x \<le> y\<close>
  also have "y < 2 powi (binary_exponent y + 1)" using binary_exponent_bounds(2) assms by simp
  finally show ?thesis using powi2_less_imp by fastforce
qed

lemma round_double_pos:
  "0 < x \<Longrightarrow> round_double x =
     of_int (round_half_even (x / 2 powi (binary_exponent x - 52))) * 2 powi (binary_exponent x - 52)"
  by (simp add: round_double_def Let_def)

lemma round_double_exact:
  assumes "0 < x" "x / 2 powi (binary_exponent x - 52) = of_int n"
  shows "round_double x = x"
proof -
  have "round_double x = of_int n * 2 powi (binary_exponent x - 52)"
    by (simp add: round_double_pos assms rhe_of_int)
  also have "\<dots> = x" using assms(2)[symmetric] by simp
  finally show ?thesis .
qed


lemma round_double_le_grid:
  assumes "0 < x" "x \<le> of_int n * 2 powi (binary_exponent x - 52)"
  shows "round_double x \<le> of_int n * 2 powi (binary_exponent x - 52)"
proof -
  let ?s = "(2::rat) powi (binary_exponent x - 52)"
  have s: "0 < ?s" by simp
  have "x / ?s \<le> of_int n" using assms(2) s by (simp add: pos_divide_le_eq)
  then have "round_half_even (x / ?s) \<le> n" using rhe_mono rhe_of_int by metis
  then have "(of_int (round_half_even (x / ?s)) :: rat) \<le> of_int n" by (simp only: of_int_le_iff)
  then show ?thesis using s by (simp add: round_double_pos assms(1))
qed

lemma round_double_ge_grid:
  assumes "0 < x" "of_int n * 2 powi (binary_exponent x - 52) \<le> x"
  shows "of_int n * 2 powi (binary_exponent x - 52) \<le> round_double x"
proof -
  let ?s = "(2::rat) powi (binary_exponent x - 52)"
  have s: "0 < ?s" by simp
  have "of_int n \<le> x / ?s" using assms(2) s by (simp add: pos_le_divide_eq)
  then have "n \<le> round_half_even (x / ?s)" using rhe_mono rhe_of_int by metis
  then have "(of_int n :: rat) \<le> of_int (round_half_even (x / ?s))" by (simp only: of_int_le_iff)
  then show ?thesis using s by (simp add: round_double_pos assms(1))
qed

lemma round_double_ge_pow:
  assumes "0 < x" shows "2 powi binary_exponent x \<le> round_double x"
proof -
  have "of_int (2 ^ 52) * 2 powi (binary_exponent x - 52) = (2::rat) powi binary_exponent x"
    by (simp add: power_int_diff)
  moreover have "(2::rat) powi binary_exponent x \<le> x" by (rule binary_exponent_bounds[OF assms])
  ultimately show ?thesis using round_double_ge_grid[OF assms, of "2 ^ 52"] by simp
qed

lemma round_double_pos_pos: "0 < x \<Longrightarrow> 0 < round_double x"
  using round_double_ge_pow[of x] zero_less_power_int[of "2::rat" "binary_exponent x"]
  by linarith

lemma round_double_mono_pos:
  assumes "0 < x" "x \<le> y"
  shows "round_double x \<le> round_double y"
proof -
  have y: "0 < y" using assms by simp
  let ?ex = "binary_exponent x - 52" and ?ey = "binary_exponent y - 52"
  have le: "?ex \<le> ?ey" using binary_exponent_mono[OF assms] by simp
  show ?thesis
  proof (cases "?ex = ?ey")
    case True
    have "x / 2 powi ?ex \<le> y / 2 powi ?ex" using assms(2) by (simp add: divide_right_mono)
    then have "round_half_even (x / 2 powi ?ex) \<le> round_half_even (y / 2 powi ?ex)"
      by (rule rhe_mono)
    then have "(of_int (round_half_even (x / 2 powi ?ex)) :: rat) \<le> of_int (round_half_even (y / 2 powi ?ex))"
      by (simp only: of_int_le_iff)
    then have "of_int (round_half_even (x / 2 powi ?ex)) * (2::rat) powi ?ex
               \<le> of_int (round_half_even (y / 2 powi ?ex)) * 2 powi ?ex"
      by (intro mult_right_mono) auto
    then show ?thesis using True by (simp only: round_double_pos[OF assms(1)] round_double_pos[OF y])
  next
    case False
    with le have lt: "binary_exponent x < binary_exponent y" by simp
    define k where "k = nat (binary_exponent y - binary_exponent x + 52)"
    have k: "int k = binary_exponent y - binary_exponent x + 52" using lt by (simp add: k_def)
    have grid: "of_int (2 ^ k) * 2 powi ?ex = (2::rat) powi binary_exponent y"
    proof -
      have "(of_int (2 ^ k) :: rat) = 2 powi (int k)" by simp
      then show ?thesis unfolding k by (simp flip: power_int_add)
    qed
    have "x < 2 powi (binary_exponent x + 1)" by (rule binary_exponent_bounds[OF assms(1)])
    also have "\<dots> \<le> 2 powi binary_exponent y" using lt by (intro power_int_increasing) auto
    finally have "x \<le> of_int (2 ^ k) * 2 powi ?ex" using grid by simp
    then have "round_double x \<le> of_int (2 ^ k) * 2 powi ?ex"
      by (rule round_double_le_grid[OF assms(1)])
    also have "\<dots> = 2 powi binary_exponent y" by (rule grid)
    also have "\<dots> \<le> round_double y" by (rule round_double_ge_pow[OF y])
    finally show ?thesis .
  qed
qed

lemma div_pow_powi: "(a / 2 ^ k :: rat) / 2 powi c = a * 2 powi (- int k - c)"
proof -
  have "(2::rat) powi (- int k - c) = 2 powi (- int k) * 2 powi (- c)"
    unfolding diff_conv_add_uminus by (rule power_int_add) simp
  moreover have "(2::rat) powi (- int k) = inverse (2 ^ k)" by (simp add: power_int_minus)
  moreover have "(2::rat) powi (- c) = inverse (2 powi c)" by (rule power_int_minus)
  ultimately show ?thesis by (simp only: divide_inverse mult.assoc)
qed

lemma round_double_dyadic:
  assumes "0 < n" "n < 2 ^ 53"
  shows "round_double (of_int n / 2 ^ k) = of_int n / 2 ^ k"
proof -
  let ?x = "of_int n / 2 ^ k :: rat"
  have x: "0 < ?x" using assms by simp
  have "2 powi binary_exponent ?x \<le> ?x" by (rule binary_exponent_bounds[OF x])
  also have "?x < 2 ^ 53 / 2 ^ k"
  proof -
    have "(of_int n :: rat) < of_int (2 ^ 53)" using assms(2) by (simp only: of_int_less_iff)
    then show ?thesis by (simp add: divide_strict_right_mono)
  qed
  also have "\<dots> = 2 powi (53 - int k)" by (simp add: power_int_diff)
  finally have "binary_exponent ?x < 53 - int k" by (rule powi2_less_imp)
  then have e: "0 \<le> - int k - (binary_exponent ?x - 52)" by simp
  define j where "j = nat (- int k - (binary_exponent ?x - 52))"
  have j: "int j = - int k - (binary_exponent ?x - 52)" using e by (simp add: j_def)
  have "?x / 2 powi (binary_exponent ?x - 52) = of_int n * 2 powi (- int k - (binary_exponent ?x - 52))"
    by (rule div_pow_powi)
  also have "\<dots> = of_int n * 2 powi (int j)" by (simp only: j)
  also have "\<dots> = of_int (n * 2 ^ j)" by simp
  finally show ?thesis by (rule round_double_exact[OF x])
qed

lemma round_double_int:
  assumes "0 \<le> n" "n < 2 ^ 53"
  shows "round_double (of_int n) = of_int n"
proof (cases "n = 0")
  case True then show ?thesis by (simp add: round_double_def)
next
  case False
  with assms have "0 < n" by simp
  from round_double_dyadic[OF this assms(2), of 0] show ?thesis by simp
qed

lemma round_double_mono:
  assumes "0 \<le> x" "x \<le> y" shows "round_double x \<le> round_double y"
proof (cases "x = 0")
  case True
  show ?thesis
  proof (cases "y = 0")
    case True with \<open>x = 0\<close> show ?thesis by simp
  next
    case False
    with assms True have "0 < y" by simp
    from round_double_pos_pos[OF this] True show ?thesis by (simp add: round_double_def)
  qed
next
  case False
  with assms have "0 < x" by simp
  then show ?thesis using assms(2) by (rule round_double_mono_pos)
qed

lemma round_double_uminus: "round_double (- x) = - round_double x"
  by (simp add: round_double_def Let_def)

lemma round_double_eq_0_iff: "round_double x = 0 \<longleftrightarrow> x = 0"
proof
  assume r: "round_double x = 0"
  show "x = 0"
  proof (rule ccontr)
    assume "x \<noteq> 0"
    then consider "0 < x" | "0 < - x" by linarith
    then show False
    proof cases
      case 1 from round_double_pos_pos[OF this] r show False by simp
    next
      case 2 from round_double_pos_pos[OF this] r show False by (simp add: round_double_uminus)
    qed
  qed
qed (simp add: round_double_def)

lemma float_of_int_eq_0_iff: "float_of_int n = 0 \<longleftrightarrow> n = 0"
  by (simp add: float_of_int_def round_double_eq_0_iff)

lemma float_of_int_exact: "0 \<le> n \<Longrightarrow> n < 2 ^ 31 \<Longrightarrow> float_of_int n = of_int n"
proof -
  assume a: "0 \<le> n" "n < 2 ^ 31"
  then have "n < 2 ^ 53" by simp
  with a show ?thesis unfolding float_of_int_def by (intro round_double_int)
qed


text \<open>Rounding changes a number by at most the fraction \<open>2\<^sup>-\<^sup>5\<^sup>3\<close> of its magnitude.\<close>

lemma round_double_error:
  "\<bar>round_double x - x\<bar> \<le> \<bar>x\<bar> / 2 ^ 53"
proof -
  have pos: "\<bar>round_double y - y\<bar> \<le> y / 2 ^ 53" if "0 < y" for y
  proof -
    let ?e = "binary_exponent y - 52"
    let ?s = "(2::rat) powi ?e"
    have s: "0 < ?s" by simp
    have "\<bar>of_int (round_half_even (y / ?s)) - y / ?s\<bar> \<le> 1 / 2" by (rule rhe_near)
    then have "\<bar>of_int (round_half_even (y / ?s)) - y / ?s\<bar> * ?s \<le> 1 / 2 * ?s"
      using s by (intro mult_right_mono) auto
    moreover have "\<bar>of_int (round_half_even (y / ?s)) - y / ?s\<bar> * ?s =
                   \<bar>of_int (round_half_even (y / ?s)) * ?s - y\<bar>"
    proof -
      have "\<bar>of_int (round_half_even (y / ?s)) - y / ?s\<bar> * ?s =
            \<bar>(of_int (round_half_even (y / ?s)) - y / ?s) * ?s\<bar>"
        using s by (simp add: abs_mult)
      also have "(of_int (round_half_even (y / ?s)) - y / ?s) * ?s =
                 of_int (round_half_even (y / ?s)) * ?s - y"
        using s by (simp add: algebra_simps)
      finally show ?thesis .
    qed
    ultimately have "\<bar>round_double y - y\<bar> \<le> 1 / 2 * ?s"
      by (simp add: round_double_pos[OF that])
    also have "1 / 2 * ?s = 2 powi binary_exponent y / 2 ^ 53"
      by (simp add: power_int_diff)
    also have "\<dots> \<le> y / 2 ^ 53"
      using binary_exponent_bounds(1)[OF that] by (simp add: divide_right_mono)
    finally show ?thesis .
  qed
  consider "x = 0" | "0 < x" | "0 < - x" by linarith
  then show ?thesis
  proof cases
    case 1 then show ?thesis by (simp add: round_double_def)
  next
    case 2 with pos[OF 2] show ?thesis by simp
  next
    case 3
    from pos[OF 3] have "\<bar>- round_double x + x\<bar> \<le> - x / 2 ^ 53"
      by (simp add: round_double_uminus)
    moreover have "\<bar>- round_double x + x\<bar> = \<bar>round_double x - x\<bar>" by linarith
    ultimately show ?thesis using 3 by simp
  qed
qed

lemma round_double_error_le:
  assumes "\<bar>x\<bar> \<le> b"
  shows "\<bar>round_double x - x\<bar> \<le> b / 2 ^ 53"
proof -
  have "\<bar>round_double x - x\<bar> \<le> \<bar>x\<bar> / 2 ^ 53" by (rule round_double_error)
  also have "\<dots> \<le> b / 2 ^ 53" using assms by (simp add: divide_right_mono)
  finally show ?thesis .
qed

lemma float_of_int_exact_abs:
  assumes "\<bar>n\<bar> < 2 ^ 53"
  shows "float_of_int n = of_int n"
proof (cases "0 \<le> n")
  case True
  with assms show ?thesis unfolding float_of_int_def by (intro round_double_int) auto
next
  case False
  then have "0 \<le> - n" "- n < 2 ^ 53" using assms by auto
  then have "round_double (of_int (- n)) = of_int (- n)" by (rule round_double_int)
  then show ?thesis by (simp add: float_of_int_def round_double_uminus)
qed

lemma index_plus_half_exact:
  assumes "0 \<le> i" "i < 2 ^ 52"
  shows "float_add (float_of_int i) (1 / 2) = of_int i + 1 / 2"
proof -
  have fi: "float_of_int i = of_int i" using assms by (intro float_of_int_exact_abs) auto
  have e: "(of_int i + 1 / 2 :: rat) = of_int (2 * i + 1) / 2 ^ 1" by (simp add: field_simps)
  have "round_double (of_int (2 * i + 1) / 2 ^ 1) = of_int (2 * i + 1) / 2 ^ 1"
    using assms by (intro round_double_dyadic) auto
  then have "round_double (of_int i + 1 / 2) = of_int i + 1 / 2" by (simp only: e)
  then show ?thesis by (simp only: float_add_def fi)
qed


section \<open>Framing, spacing and the two grids\<close>

lemmas variant_a_defs =
  passport_px_def border_def final_photo_size_def layout_size_def rows_def cols_def
  spacing_def x_spacing_def y_spacing_def

lemmas variant_b_defs =
  PASSPORT_PHOTO_PX_def LAYOUT_PX_def GRID_ROWS_def GRID_COLS_def PHOTO_BORDER_PX_def
  GUIDELINE_WIDTH_def DOTTED_LINE_GAP_def final_photo_size_v2_def block_width_def
  block_height_def start_x_def start_y_def

lemmas image_defs = new_image_def resize_def paste_def paste_box_def draw_guide_def size_of_def

text \<open>
  C4. In both scripts the framed photo measures the target size plus twice the border
  on each axis, \<open>(413 + 2 * 20, 531 + 2 * 20) = (453, 571)\<close>, and the resized photo is
  pasted once, at \<open>(border, border)\<close>, which leaves exactly 20 white pixels on each of
  the four sides.
\<close>

theorem framed_photo_size_and_margin:
  "size_of (framed img) = (413 + 2 * 20, 531 + 2 * 20) \<and>
   size_of (framed img) = (453, 571) \<and>
   pastes (framed img) = [(20, 20, 20 + 413, 20 + 531)] \<and>
   margins (size_of (framed img)) (hd (pastes (framed img))) = (20, 20, 20, 20) \<and>
   size_of (framed_photo img) = (413 + 2 * 20, 531 + 2 * 20) \<and>
   size_of (framed_photo img) = (453, 571) \<and>
   pastes (framed_photo img) = [(20, 20, 20 + 413, 20 + 531)] \<and>
   margins (size_of (framed_photo img)) (hd (pastes (framed_photo img))) = (20, 20, 20, 20)"
  by (simp add: framed_def framed_photo_def image_defs margins_def variant_a_defs variant_b_defs)

lemma spacing_fill:
  assumes "0 \<le> n"
  shows "extent - n \<le> n * photo + (n + 1) * spacing extent n photo"
    and "n * photo + (n + 1) * spacing extent n photo \<le> extent"
proof -
  let ?a = "extent - n * photo"
  have pos: "0 < n + 1" using assms by simp
  have eq: "(n + 1) * (?a div (n + 1)) = ?a - ?a mod (n + 1)"
    by (simp add: minus_mod_eq_mult_div)
  have "0 \<le> ?a mod (n + 1)" "?a mod (n + 1) < n + 1"
    using pos by (simp_all only: pos_mod_sign pos_mod_bound)
  with eq show "extent - n \<le> n * photo + (n + 1) * spacing extent n photo"
    and "n * photo + (n + 1) * spacing extent n photo \<le> extent"
    unfolding spacing_def by linarith+
qed

text \<open>
  C5, as the script computes it. The spacing is a floor division. On an axis where the
  photos fit (\<open>n * photo \<le> extent\<close>) the gap is not negative, and \<open>n\<close> photos with
  \<open>n + 1\<close> gaps stay within the canvas and fall short of it by the remainder of the
  division, which is less than the number of gaps. With the default constants this is
  the vertical axis: two rows of 571 pixels fit into 1800, the gap is 219, and rows and
  gaps add up to 1799.
\<close>

theorem variant_a_spacing_fills_where_photos_fit:
  "(\<forall>extent n photo. 0 \<le> n \<and> n * photo \<le> extent \<longrightarrow>
       0 \<le> spacing extent n photo \<and>
       extent - n \<le> n * photo + (n + 1) * spacing extent n photo \<and>
       n * photo + (n + 1) * spacing extent n photo \<le> extent) \<and>
   rows * snd final_photo_size \<le> snd layout_size \<and>
   y_spacing = spacing (snd layout_size) rows (snd final_photo_size) \<and>
   y_spacing = 219 \<and>
   rows * snd final_photo_size + (rows + 1) * y_spacing = 1799"
proof (intro conjI allI impI)
  fix extent n photo :: int
  assume a: "0 \<le> n \<and> n * photo \<le> extent"
  then have "0 \<le> extent - n * photo" "0 < n + 1" by simp_all
  then show "0 \<le> spacing extent n photo"
    unfolding spacing_def by (simp add: pos_imp_zdiv_nonneg_iff)
  from a show "extent - n \<le> n * photo + (n + 1) * spacing extent n photo"
    and "n * photo + (n + 1) * spacing extent n photo \<le> extent"
    using spacing_fill[where n = n and extent = extent and photo = photo] by simp_all
qed (simp_all add: variant_a_defs)

theorem variant_a_spacing_fills_where_photos_fit_witness:
  "(0::int) \<le> 2 \<and> (2::int) * 571 \<le> 1800 \<and>
   0 \<le> spacing 1800 2 571 \<and>
   1800 - 2 \<le> 2 * 571 + (2 + 1) * spacing 1800 2 571 \<and>
   2 * 571 + (2 + 1) * spacing 1800 2 571 \<le> 1800"
  using variant_a_spacing_fills_where_photos_fit [THEN conjunct1, rule_format, of 2 571 1800]
  by simp

text \<open>
  C5 as stated fails: with the default constants the two sums are 1199 and 1799, not
  1200 and 1800.
\<close>

theorem variant_a_spacing_not_exact:
  "\<not> (cols * fst final_photo_size + (cols + 1) * x_spacing = 1200 \<and>
      rows * snd final_photo_size + (rows + 1) * y_spacing = 1800)"
  by (simp add: variant_a_defs)

lemma cells_rows_cols: "cells rows cols = [(0,0),(0,1),(0,2),(1,0),(1,1),(1,2)]"
  by (simp add: cells_def rows_def cols_def upto.simps)

lemma cells_grid_v2: "cells GRID_ROWS GRID_COLS = [(0,0),(0,1),(1,0),(1,1),(2,0),(2,1)]"
  by (simp add: cells_def GRID_ROWS_def GRID_COLS_def upto.simps)

lemma compose_grid_pastes:
  "pastes (compose_grid (framed img)) =
     [(- 40, 219, 413, 790), (373, 219, 826, 790), (786, 219, 1239, 790),
      (- 40, 1009, 413, 1580), (373, 1009, 826, 1580), (786, 1009, 1239, 1580)]"
  unfolding compose_grid_def cells_rows_cols
  by (simp add: place_cell_def cell_pos_def framed_def image_defs variant_a_defs)

text \<open>
  C1 on variant A. Three framed photos of 453 pixels are wider than the 1200-pixel
  canvas, so the horizontal spacing is negative (\<open>-40\<close>): the six pasted rectangles
  start 40 pixels left of the canvas, end 39 pixels right of it, and neighbours in a
  row overlap by 40 pixels.
\<close>

theorem variant_a_grid_leaves_canvas_and_overlaps:
  "x_spacing = - 40 \<and>
   pastes (compose_grid (framed img)) =
     [(- 40, 219, 413, 790), (373, 219, 826, 790), (786, 219, 1239, 790),
      (- 40, 1009, 413, 1580), (373, 1009, 826, 1580), (786, 1009, 1239, 1580)] \<and>
   \<not> inside layout_size (pastes (compose_grid (framed img)) ! 0) \<and>
   \<not> inside layout_size (pastes (compose_grid (framed img)) ! 2) \<and>
   overlap (pastes (compose_grid (framed img)) ! 0) (pastes (compose_grid (framed img)) ! 1) \<and>
   \<not> pairwise_disjoint (pastes (compose_grid (framed img)))"
  unfolding compose_grid_pastes
  by (simp add: inside_def overlap_def variant_a_defs)


section \<open>The centre crop\<close>

text \<open>
  The target ratio 413/531 is 7/9; as a double it is \<open>7005599420354105 / 2\<^sup>5\<^sup>3\<close>, which
  exceeds 7/9 by \<open>1 / (9 * 2\<^sup>5\<^sup>3)\<close>. For image sizes below \<open>2\<^sup>3\<^sup>1\<close> the float comparison
  decides exactly as the comparison of \<open>9 * width\<close> with \<open>7 * height\<close> does.
\<close>

lemma ASPECT_RATIO_value: "ASPECT_RATIO = 7005599420354105 / 2 ^ 53"
  by code_simp

lemma aspect_target_eq: "aspect_target = ASPECT_RATIO"
  by (simp add: aspect_target_def ASPECT_RATIO_def passport_px_def PASSPORT_PHOTO_PX_def)

lemma ASPECT_RATIO_fix: "round_double ASPECT_RATIO = ASPECT_RATIO"
  unfolding ASPECT_RATIO_value
  using round_double_dyadic[of 7005599420354105 53] by simp

lemma ASPECT_RATIO_neq_0: "ASPECT_RATIO \<noteq> 0"
  by (simp add: ASPECT_RATIO_value)

lemma wider_iff:
  fixes w h :: int
  assumes "0 < w" "0 < h" "h < 2 ^ 31"
  shows "(ASPECT_RATIO < round_double (of_int w / of_int h)) = (7 * h < 9 * w)"
proof
  assume gt: "ASPECT_RATIO < round_double (of_int w / of_int h)"
  show "7 * h < 9 * w"
  proof (rule ccontr)
    assume "\<not> 7 * h < 9 * w"
    then have "9 * w \<le> 7 * h" by simp
    then have "7005599420354105 * h \<ge> 9007199254740992 * w" using assms by linarith
    then have "(of_int (9007199254740992 * w) :: rat) \<le> of_int (7005599420354105 * h)"
      by (simp only: of_int_le_iff)
    then have "(of_int w / of_int h :: rat) \<le> ASPECT_RATIO"
      using assms by (simp add: ASPECT_RATIO_value field_simps)
    moreover have "(0::rat) \<le> of_int w / of_int h" using assms by simp
    ultimately have "round_double (of_int w / of_int h) \<le> round_double ASPECT_RATIO"
      by (intro round_double_mono)
    with gt show False by (simp add: ASPECT_RATIO_fix)
  qed
next
  assume "7 * h < 9 * w"
  moreover have "h < 2147483648" using assms by simp
  ultimately have "7005599420354106 * h \<le> 9007199254740992 * w" by linarith
  then have "(of_int (7005599420354106 * h) :: rat) \<le> of_int (9007199254740992 * w)"
    by (simp only: of_int_le_iff)
  then have "(7005599420354106 / 2 ^ 53 :: rat) \<le> of_int w / of_int h"
    using assms by (simp add: field_simps)
  then have "round_double (of_int 7005599420354106 / 2 ^ 53) \<le> round_double (of_int w / of_int h)"
    by (intro round_double_mono) auto
  then have "(7005599420354106 / 2 ^ 53 :: rat) \<le> round_double (of_int w / of_int h)"
    using round_double_dyadic[of 7005599420354106 53] by simp
  then show "ASPECT_RATIO < round_double (of_int w / of_int h)"
    by (simp add: ASPECT_RATIO_value)
qed

lemma new_width_value:
  fixes h :: int
  assumes "0 < h" "h < 2 ^ 31"
  shows "py_int (float_mul (float_of_int h) ASPECT_RATIO) = (7 * h) div 9"
proof -
  define a where "a = (7 * h) div 9"
  define x :: rat where "x = of_int h * ASPECT_RATIO"
  have hb: "h < 2147483648" using assms by simp
  have a9: "9 * a \<le> 7 * h" "7 * h \<le> 9 * a + 8" and a0: "0 \<le> a"
    using assms unfolding a_def by simp_all
  have fl: "float_mul (float_of_int h) ASPECT_RATIO = round_double x"
    using assms by (simp add: float_mul_def float_of_int_exact x_def)
  have xpos: "0 < x" using assms by (simp add: x_def ASPECT_RATIO_value)
  have lo: "of_int a \<le> round_double x"
  proof -
    have "9007199254740992 * a \<le> 7005599420354105 * h" using a9 assms by linarith
    then have "(of_int (9007199254740992 * a) :: rat) \<le> of_int (7005599420354105 * h)"
      by (simp only: of_int_le_iff)
    then have "(of_int a :: rat) \<le> x" by (simp add: x_def ASPECT_RATIO_value field_simps)
    moreover have "(0::rat) \<le> of_int a" using a0 by simp
    ultimately have "round_double (of_int a) \<le> round_double x" by (intro round_double_mono)
    moreover have "a < 2 ^ 53" using a9 hb by simp
    ultimately show ?thesis using round_double_int[OF a0] by simp
  qed
  have hi: "round_double x \<le> of_int (16 * a + 15) / 2 ^ 4"
  proof -
    have "16 * (7005599420354105 * h) \<le> 9007199254740992 * (16 * a + 15)"
      using a9 hb by simp
    then have "(of_int (16 * (7005599420354105 * h)) :: rat) \<le> of_int (9007199254740992 * (16 * a + 15))"
      by (simp only: of_int_le_iff)
    then have "x \<le> of_int (16 * a + 15) / 2 ^ 4"
      by (simp add: x_def ASPECT_RATIO_value field_simps)
    then have "round_double x \<le> round_double (of_int (16 * a + 15) / 2 ^ 4)"
      using xpos by (intro round_double_mono) auto
    moreover have "0 < 16 * a + 15" "16 * a + 15 < 2 ^ 53" using a0 a9 hb by simp_all
    ultimately show ?thesis using round_double_dyadic[of "16 * a + 15" 4] by simp
  qed
  have "\<lfloor>round_double x\<rfloor> = a"
  proof (rule floor_unique)
    show "of_int a \<le> round_double x" by (rule lo)
    have "(of_int (16 * a + 15) / 2 ^ 4 :: rat) < of_int a + 1" by (simp add: field_simps)
    with hi show "round_double x < of_int a + 1" by linarith
  qed
  moreover have "0 \<le> round_double x" using round_double_pos_pos[OF xpos] by simp
  ultimately show ?thesis by (simp add: py_int_def fl a_def)
qed

lemma new_height_bounds:
  fixes w :: int
  assumes "0 < w" "w < 2 ^ 31"
  shows "\<exists>q. float_truediv (float_of_int w) ASPECT_RATIO = Inr q \<and>
           (9 * w + 6) div 7 - 1 \<le> py_int q \<and> py_int q \<le> (9 * w) div 7"
proof -
  define b where "b = (9 * w) div 7"
  define a where "a = (9 * w + 6) div 7 - 1"
  define x :: rat where "x = of_int w / ASPECT_RATIO"
  have wb: "w < 2147483648" using assms by simp
  have b7: "7 * b \<le> 9 * w" "9 * w \<le> 7 * b + 6" and b0: "0 \<le> b"
    using assms unfolding b_def by simp_all
  have a7: "7 * a + 1 \<le> 9 * w" "9 * w \<le> 7 * a + 7"
    unfolding a_def by simp_all
  have a0: "0 < a" using a7 assms by linarith
  have q: "float_truediv (float_of_int w) ASPECT_RATIO = Inr (round_double x)"
    using assms by (simp add: float_truediv_def float_of_int_exact x_def ASPECT_RATIO_neq_0)
  have xpos: "0 < x" using assms by (simp add: x_def ASPECT_RATIO_value)
  have lo: "of_int a \<le> round_double x"
  proof -
    have "7005599420354105 * a \<le> 9007199254740992 * w" using a7 wb by linarith
    then have "(of_int (7005599420354105 * a) :: rat) \<le> of_int (9007199254740992 * w)"
      by (simp only: of_int_le_iff)
    then have "(of_int a :: rat) \<le> x" by (simp add: x_def ASPECT_RATIO_value field_simps)
    moreover have "(0::rat) \<le> of_int a" using a0 by simp
    ultimately have "round_double (of_int a) \<le> round_double x" by (intro round_double_mono)
    moreover have "0 \<le> a" "a < 2 ^ 53" using a7 a0 wb by simp_all
    ultimately show ?thesis using round_double_int[of a] by simp
  qed
  have hi: "round_double x \<le> of_int (16 * b + 15) / 2 ^ 4"
  proof -
    have "16 * (9007199254740992 * w) \<le> 7005599420354105 * (16 * b + 15)"
      using b7 wb b0 by simp
    then have "(of_int (16 * (9007199254740992 * w)) :: rat) \<le> of_int (7005599420354105 * (16 * b + 15))"
      by (simp only: of_int_le_iff)
    then have "x \<le> of_int (16 * b + 15) / 2 ^ 4"
      by (simp add: x_def ASPECT_RATIO_value field_simps)
    then have "round_double x \<le> round_double (of_int (16 * b + 15) / 2 ^ 4)"
      using xpos by (intro round_double_mono) auto
    moreover have "0 < 16 * b + 15" "16 * b + 15 < 2 ^ 53" using b0 b7 wb by simp_all
    ultimately show ?thesis using round_double_dyadic[of "16 * b + 15" 4] by simp
  qed
  have "(of_int (16 * b + 15) / 2 ^ 4 :: rat) < of_int (b + 1)" by (simp add: field_simps)
  with hi have "round_double x < of_int (b + 1)" by linarith
  then have "\<lfloor>round_double x\<rfloor> < b + 1" by (simp only: floor_less_iff)
  then have up: "\<lfloor>round_double x\<rfloor> \<le> b" by simp
  have dn: "a \<le> \<lfloor>round_double x\<rfloor>" using lo by (simp add: le_floor_iff)
  have "0 \<le> round_double x" using round_double_pos_pos[OF xpos] by simp
  then have "py_int (round_double x) = \<lfloor>round_double x\<rfloor>" by (simp add: py_int_def)
  with up dn q show ?thesis by (simp add: a_def b_def)
qed

lemma crop_box_wide:
  assumes "0 < width img" "width img < 2 ^ 31" "0 < height img" "height img < 2 ^ 31"
    and "7 * height img < 9 * width img"
  shows "crop_box img ASPECT_RATIO =
           Inr ((width img - 7 * height img div 9) div 2, 0,
                (width img - 7 * height img div 9) div 2 + 7 * height img div 9, height img)"
  using assms wider_iff[of "width img" "height img"] new_width_value[of "height img"]
  by (simp add: crop_box_def sum_bind_def int_truediv_def Let_def)

lemma crop_box_tall:
  assumes "0 < width img" "width img < 2 ^ 31" "0 < height img" "height img < 2 ^ 31"
    and "\<not> 7 * height img < 9 * width img"
  shows "\<exists>nh. crop_box img ASPECT_RATIO =
                 Inr (0, (height img - nh) div 2, width img, (height img - nh) div 2 + nh) \<and>
              (9 * width img + 6) div 7 - 1 \<le> nh \<and> nh \<le> (9 * width img) div 7"
proof -
  from new_height_bounds[OF assms(1,2)] obtain q where
    q: "float_truediv (float_of_int (width img)) ASPECT_RATIO = Inr q"
       "(9 * width img + 6) div 7 - 1 \<le> py_int q" "py_int q \<le> (9 * width img) div 7"
    by blast
  have "crop_box img ASPECT_RATIO =
          Inr (0, (height img - py_int q) div 2, width img, (height img - py_int q) div 2 + py_int q)"
    using assms wider_iff[of "width img" "height img"] q(1)
    by (simp add: crop_box_def sum_bind_def int_truediv_def Let_def)
  with q(2,3) show ?thesis by blast
qed

lemma crop_box_total:
  assumes "height img \<noteq> 0"
  shows "\<exists>nw nh. crop_box img ASPECT_RATIO =
           Inr ((width img - nw) div 2, 0, (width img - nw) div 2 + nw, height img) \<or>
         crop_box img ASPECT_RATIO =
           Inr (0, (height img - nh) div 2, width img, (height img - nh) div 2 + nh)"
  using assms
  by (auto simp: crop_box_def sum_bind_def int_truediv_def float_truediv_def Let_def
      ASPECT_RATIO_neq_0)

text \<open>
  C3. For every source image with positive width and height the crop is centred: one
  axis keeps its full extent, and on the other the leading offset is
  \<open>(original - new) div 2\<close> (floor division), so that the margin removed before the
  crop box and the margin removed after it differ by at most one pixel. Both scripts
  crop with the same target ratio.
\<close>

theorem crop_is_centred:
  assumes "0 < width img" "0 < height img"
  shows "\<exists>left upper right lower.
           crop_box img ASPECT_RATIO = Inr (left, upper, right, lower) \<and>
           crop_image_to_aspect_ratio img ASPECT_RATIO = Inr (crop img (left, upper, right, lower)) \<and>
           aspect_target = ASPECT_RATIO \<and>
           ((upper = 0 \<and> lower = height img \<and>
             left = (width img - (right - left)) div 2 \<and>
             \<bar>left - (width img - right)\<bar> \<le> 1) \<or>
            (left = 0 \<and> right = width img \<and>
             upper = (height img - (lower - upper)) div 2 \<and>
             \<bar>upper - (height img - lower)\<bar> \<le> 1))"
proof -
  from assms have "height img \<noteq> 0" by simp
  from crop_box_total[OF this] obtain nw nh where
    "crop_box img ASPECT_RATIO =
           Inr ((width img - nw) div 2, 0, (width img - nw) div 2 + nw, height img) \<or>
     crop_box img ASPECT_RATIO =
           Inr (0, (height img - nh) div 2, width img, (height img - nh) div 2 + nh)"
    by blast
  then show ?thesis
  proof
    assume b: "crop_box img ASPECT_RATIO =
           Inr ((width img - nw) div 2, 0, (width img - nw) div 2 + nw, height img)"
    have "\<bar>(width img - nw) div 2 - (width img - ((width img - nw) div 2 + nw))\<bar> \<le> 1"
      by linarith
    with b show ?thesis
      by (simp add: crop_image_to_aspect_ratio_def sum_bind_def aspect_target_eq)
  next
    assume b: "crop_box img ASPECT_RATIO =
           Inr (0, (height img - nh) div 2, width img, (height img - nh) div 2 + nh)"
    have "\<bar>(height img - nh) div 2 - (height img - ((height img - nh) div 2 + nh))\<bar> \<le> 1"
      by linarith
    with b show ?thesis
      by (simp add: crop_image_to_aspect_ratio_def sum_bind_def aspect_target_eq)
  qed
qed

theorem crop_is_centred_witness:
  "0 < width (new_image (1000, 1500)) \<and> 0 < height (new_image (1000, 1500)) \<and>
   (\<exists>left upper right lower.
      crop_box (new_image (1000, 1500)) ASPECT_RATIO = Inr (left, upper, right, lower) \<and>
      ((upper = 0 \<and> lower = 1500 \<and> left = (1000 - (right - left)) div 2 \<and>
        \<bar>left - (1000 - right)\<bar> \<le> 1) \<or>
       (left = 0 \<and> right = 1000 \<and> upper = (1500 - (lower - upper)) div 2 \<and>
        \<bar>upper - (1500 - lower)\<bar> \<le> 1)))"
  using crop_is_centred[of "new_image (1000, 1500)"]
  by (simp add: new_image_def) blast

text \<open>
  C10. For every source image with positive width and height (below \<open>2\<^sup>3\<^sup>1\<close>, the
  range of Pillow's image sizes) the crop box lies within the source: the offsets are
  not negative, offset plus new dimension does not exceed the original dimension, and
  the cropped image is no larger than the source on either axis.
\<close>

theorem crop_box_within_source:
  assumes "0 < width img" "width img < 2 ^ 31" "0 < height img" "height img < 2 ^ 31"
  shows "\<exists>left upper right lower cropped.
           crop_box img ASPECT_RATIO = Inr (left, upper, right, lower) \<and>
           0 \<le> left \<and> left \<le> right \<and> right \<le> width img \<and>
           0 \<le> upper \<and> upper \<le> lower \<and> lower \<le> height img \<and>
           crop_image_to_aspect_ratio img ASPECT_RATIO = Inr cropped \<and>
           width cropped \<le> width img \<and> height cropped \<le> height img \<and>
           aspect_target = ASPECT_RATIO"
proof (cases "7 * height img < 9 * width img")
  case True
  define nw where "nw = 7 * height img div 9"
  have nw: "0 \<le> nw" "nw \<le> width img" using True assms unfolding nw_def by simp_all
  have b: "crop_box img ASPECT_RATIO =
        Inr ((width img - nw) div 2, 0, (width img - nw) div 2 + nw, height img)"
    unfolding nw_def by (rule crop_box_wide[OF assms True])
  have "0 \<le> (width img - nw) div 2" "(width img - nw) div 2 + nw \<le> width img"
    using nw by simp_all
  with b nw assms show ?thesis
    by (simp add: crop_image_to_aspect_ratio_def sum_bind_def crop_def new_image_def aspect_target_eq)
next
  case False
  from crop_box_tall[OF assms False] obtain nh where
    b: "crop_box img ASPECT_RATIO =
          Inr (0, (height img - nh) div 2, width img, (height img - nh) div 2 + nh)"
    and lo: "(9 * width img + 6) div 7 - 1 \<le> nh" and hi: "nh \<le> (9 * width img) div 7"
    by blast
  have "0 \<le> nh" using lo assms by linarith
  moreover have "nh \<le> height img" using hi False by linarith
  ultimately have "0 \<le> (height img - nh) div 2" "(height img - nh) div 2 + nh \<le> height img"
    "0 \<le> nh" "nh \<le> height img"
    by simp_all
  with b assms show ?thesis
    by (simp add: crop_image_to_aspect_ratio_def sum_bind_def crop_def new_image_def aspect_target_eq)
qed

theorem crop_box_within_source_witness:
  "0 < width (new_image (1000, 1500)) \<and> width (new_image (1000, 1500)) < 2 ^ 31 \<and>
   0 < height (new_image (1000, 1500)) \<and> height (new_image (1000, 1500)) < 2 ^ 31 \<and>
   (\<exists>left upper right lower.
      crop_box (new_image (1000, 1500)) ASPECT_RATIO = Inr (left, upper, right, lower) \<and>
      0 \<le> left \<and> left \<le> right \<and> right \<le> 1000 \<and> 0 \<le> upper \<and> upper \<le> lower \<and> lower \<le> 1500)"
  using crop_box_within_source[of "new_image (1000, 1500)"]
  by (simp add: new_image_def) blast

text \<open>
  C2. For every source image with positive width and height (below \<open>2\<^sup>3\<^sup>1\<close>) and the
  target ratio 413/531, the width of the cropped image differs from its height times
  the target ratio by at most one pixel.
\<close>

theorem crop_ratio_within_one_pixel:
  assumes "0 < width img" "width img < 2 ^ 31" "0 < height img" "height img < 2 ^ 31"
  shows "\<exists>cropped.
           crop_image_to_aspect_ratio img ASPECT_RATIO = Inr cropped \<and>
           \<bar>of_int (width cropped) - of_int (height cropped) * (413 / 531 :: rat)\<bar> \<le> 1 \<and>
           aspect_target = ASPECT_RATIO"
proof (cases "7 * height img < 9 * width img")
  case True
  define nw where "nw = 7 * height img div 9"
  have nw: "9 * nw \<le> 7 * height img" "7 * height img \<le> 9 * nw + 8" unfolding nw_def by simp_all
  have b: "crop_box img ASPECT_RATIO =
        Inr ((width img - nw) div 2, 0, (width img - nw) div 2 + nw, height img)"
    unfolding nw_def by (rule crop_box_wide[OF assms True])
  have "(of_int (9 * nw) :: rat) \<le> of_int (7 * height img)"
       "(of_int (7 * height img) :: rat) \<le> of_int (9 * nw + 8)"
    using nw by (simp_all only: of_int_le_iff)
  then have "\<bar>of_int nw - of_int (height img) * (413 / 531 :: rat)\<bar> \<le> 1"
    by (simp add: abs_le_iff field_simps)
  with b show ?thesis
    by (simp add: crop_image_to_aspect_ratio_def sum_bind_def crop_def new_image_def aspect_target_eq)
next
  case False
  from crop_box_tall[OF assms False] obtain nh where
    b: "crop_box img ASPECT_RATIO =
          Inr (0, (height img - nh) div 2, width img, (height img - nh) div 2 + nh)"
    and lo: "(9 * width img + 6) div 7 - 1 \<le> nh" and hi: "nh \<le> (9 * width img) div 7"
    by blast
  have "9 * width img - 7 \<le> 7 * nh" "7 * nh \<le> 9 * width img" using lo hi by linarith+
  then have "(of_int (9 * width img - 7) :: rat) \<le> of_int (7 * nh)"
       "(of_int (7 * nh) :: rat) \<le> of_int (9 * width img)"
    by (simp_all only: of_int_le_iff)
  then have "\<bar>of_int (width img) - of_int nh * (413 / 531 :: rat)\<bar> \<le> 1"
    by (simp add: abs_le_iff field_simps)
  with b show ?thesis
    by (simp add: crop_image_to_aspect_ratio_def sum_bind_def crop_def new_image_def aspect_target_eq)
qed

theorem crop_ratio_within_one_pixel_witness:
  "0 < width (new_image (1000, 1500)) \<and> width (new_image (1000, 1500)) < 2 ^ 31 \<and>
   0 < height (new_image (1000, 1500)) \<and> height (new_image (1000, 1500)) < 2 ^ 31 \<and>
   (\<exists>cropped.
      crop_image_to_aspect_ratio (new_image (1000, 1500)) ASPECT_RATIO = Inr cropped \<and>
      \<bar>of_int (width cropped) - of_int (height cropped) * (413 / 531 :: rat)\<bar> \<le> 1)"
  using crop_ratio_within_one_pixel[of "new_image (1000, 1500)"]
  by (simp add: new_image_def) blast

lemma crop_1000_1500:
  "crop_box (new_image (1000, 1500)) ASPECT_RATIO = Inr (0, 107, 1000, 1392)"
  by code_simp


section \<open>Dotted guidelines never divide by zero\<close>

lemma sum_bind_Inr [simp]: "sum_bind (Inr x) f = f x"
  by (simp add: sum_bind_def)

lemma sum_bind_Inl [simp]: "sum_bind (Inl e) f = Inl e"
  by (simp add: sum_bind_def)

lemma for_each_total:
  assumes "\<And>x. x \<in> set xs \<Longrightarrow> \<exists>y. f x = Inr y"
  shows "\<exists>ys. for_each f xs = Inr ys \<and> length ys = length xs"
  using assms
proof (induction xs)
  case Nil
  show ?case by simp
next
  case (Cons x xs)
  from Cons.prems obtain y where y: "f x = Inr y" by auto
  from Cons.IH Cons.prems obtain ys where "for_each f xs = Inr ys" "length ys = length xs"
    by auto
  with y show ?case by simp
qed

lemma dash_total:
  assumes "n \<noteq> 0"
  shows "\<exists>d. dash start_xy end_xy n i = Inr d"
  using assms
  by (simp add: dash_def Let_def int_truediv_def float_truediv_def float_of_int_eq_0_iff)

lemma num_dots_total:
  assumes "wd + gap \<noteq> 0"
  shows "\<exists>n. num_dots pow_half start_xy end_xy wd gap = Inr n"
  using assms
  by (simp add: num_dots_def Let_def float_truediv_def float_of_int_eq_0_iff)

lemma draw_dotted_line_total:
  assumes "wd + gap \<noteq> 0"
  shows "\<exists>ds. draw_dotted_line pow_half start_xy end_xy wd gap = Inr ds"
proof -
  from num_dots_total[OF assms] obtain n where
    n: "num_dots pow_half start_xy end_xy wd gap = Inr n" by blast
  have "\<exists>ds. for_each (dash start_xy end_xy n) [0..n - 1] = Inr ds \<and>
          length ds = length [0..n - 1]"
  proof (rule for_each_total)
    fix i assume "i \<in> set [0..n - 1]"
    then have "n \<noteq> 0" by auto
    then show "\<exists>d. dash start_xy end_xy n i = Inr d" by (rule dash_total)
  qed
  with n show ?thesis by (auto simp: draw_dotted_line_def)
qed

text \<open>The number of dashes drawn is the segment count the code computed, or none.\<close>

lemma draw_dotted_line_length:
  assumes "num_dots pow_half start_xy end_xy wd gap = Inr n"
  shows "\<exists>ds. draw_dotted_line pow_half start_xy end_xy wd gap = Inr ds \<and> int (length ds) = max 0 n"
proof -
  have "\<exists>ds. for_each (dash start_xy end_xy n) [0..n - 1] = Inr ds \<and>
          length ds = length [0..n - 1]"
  proof (rule for_each_total)
    fix i assume "i \<in> set [0..n - 1]"
    then have "n \<noteq> 0" by auto
    then show "\<exists>d. dash start_xy end_xy n i = Inr d" by (rule dash_total)
  qed
  with assms show ?thesis by (auto simp: draw_dotted_line_def)
qed

lemma draw_dotted_line_nothing:
  assumes "num_dots pow_half start_xy end_xy wd gap = Inr n" "n \<le> 0"
  shows "draw_dotted_line pow_half start_xy end_xy wd gap = Inr []"
  using assms by (simp add: draw_dotted_line_def)

lemma float_of_int_0: "float_of_int 0 = 0"
  by (simp add: float_of_int_def round_double_def)

lemma num_dots_zero_length:
  assumes "wd + gap \<noteq> 0" "pow_half 0 = 0"
  shows "num_dots pow_half xy xy wd gap = Inr 0"
proof -
  have "float_truediv 0 (float_of_int (wd + gap)) = Inr 0"
    using assms(1) by (simp add: float_truediv_def float_of_int_eq_0_iff round_double_def)
  then show ?thesis
    using assms(2) by (simp add: num_dots_def float_of_int_0 py_int_def)
qed

lemma draw_dotted_rectangle_total:
  assumes "wd + gap \<noteq> 0"
  shows "\<exists>ds. draw_dotted_rectangle pow_half xy wd gap = Inr ds"
proof -
  obtain x0 y0 x1 y1 where xy: "xy = (x0, y0, x1, y1)" by (cases xy) auto
  from draw_dotted_line_total[OF assms] obtain d1 d2 d3 d4 where
    "draw_dotted_line pow_half (x0, y0) (x1, y0) wd gap = Inr d1"
    "draw_dotted_line pow_half (x1, y0) (x1, y1) wd gap = Inr d2"
    "draw_dotted_line pow_half (x1, y1) (x0, y1) wd gap = Inr d3"
    "draw_dotted_line pow_half (x0, y1) (x0, y0) wd gap = Inr d4"
    by metis
  then show ?thesis by (simp add: draw_dotted_rectangle_def xy)
qed

text \<open>
  C6. Whatever the two endpoints are, coincident ones included, and whatever
  \<open>pow\<close> returns, \<open>draw_dotted_line\<close> and \<open>draw_dotted_rectangle\<close> return normally when
  \<open>width + gap\<close> is not zero (the scripts use 2 and 10): the only division by the
  segment count sits in the loop body, which does not run when the count is zero or
  negative, and then nothing is drawn. A zero-length line, and a rectangle shrunk to a
  point, draw nothing.
\<close>

theorem dotted_drawing_raises_no_division_error:
  assumes "wd + gap \<noteq> 0"
  shows "(\<exists>ds. draw_dotted_line pow_half start_xy end_xy wd gap = Inr ds) \<and>
         (\<exists>ds. draw_dotted_rectangle pow_half xy wd gap = Inr ds) \<and>
         (\<exists>n. num_dots pow_half start_xy end_xy wd gap = Inr n \<and>
              (n \<le> 0 \<longrightarrow> draw_dotted_line pow_half start_xy end_xy wd gap = Inr [])) \<and>
         (pow_half 0 = 0 \<longrightarrow>
            draw_dotted_line pow_half (x, y) (x, y) wd gap = Inr [] \<and>
            draw_dotted_rectangle pow_half (x, y, x, y) wd gap = Inr [])"
proof (intro conjI impI)
  show "\<exists>ds. draw_dotted_line pow_half start_xy end_xy wd gap = Inr ds"
    by (rule draw_dotted_line_total[OF assms])
  show "\<exists>ds. draw_dotted_rectangle pow_half xy wd gap = Inr ds"
    by (rule draw_dotted_rectangle_total[OF assms])
  show "\<exists>n. num_dots pow_half start_xy end_xy wd gap = Inr n \<and>
              (n \<le> 0 \<longrightarrow> draw_dotted_line pow_half start_xy end_xy wd gap = Inr [])"
    using num_dots_total[OF assms] draw_dotted_line_nothing by blast
next
  assume z: "pow_half 0 = 0"
  have line: "draw_dotted_line pow_half p p wd gap = Inr []" for p
    using num_dots_zero_length[of wd gap pow_half p] assms z
    by (intro draw_dotted_line_nothing[where n = 0]) simp_all
  show "draw_dotted_line pow_half (x, y) (x, y) wd gap = Inr []" by (rule line)
  show "draw_dotted_rectangle pow_half (x, y, x, y) wd gap = Inr []"
    by (simp add: draw_dotted_rectangle_def line)
qed

lemma sqrt_double_0: "sqrt_double 0 = 0"
  by (simp add: sqrt_double_def)

theorem dotted_drawing_raises_no_division_error_witness:
  "GUIDELINE_WIDTH + DOTTED_LINE_GAP \<noteq> 0 \<and> sqrt_double 0 = 0 \<and>
   (\<exists>ds. draw_dotted_line sqrt_double (0, 0) (5, 0) GUIDELINE_WIDTH DOTTED_LINE_GAP = Inr ds) \<and>
   (\<exists>ds. draw_dotted_rectangle sqrt_double (147, 43, 600, 614) GUIDELINE_WIDTH DOTTED_LINE_GAP = Inr ds) \<and>
   draw_dotted_line sqrt_double (7, 7) (7, 7) GUIDELINE_WIDTH DOTTED_LINE_GAP = Inr [] \<and>
   draw_dotted_rectangle sqrt_double (7, 7, 7, 7) GUIDELINE_WIDTH DOTTED_LINE_GAP = Inr []"
  using dotted_drawing_raises_no_division_error
          [of GUIDELINE_WIDTH DOTTED_LINE_GAP sqrt_double "(0, 0)" "(5, 0)" "(147, 43, 600, 614)" 7 7]
  by (simp add: GUIDELINE_WIDTH_def DOTTED_LINE_GAP_def sqrt_double_0)

lemma short_line_draws_nothing:
  "num_dots sqrt_double (0, 0) (5, 0) GUIDELINE_WIDTH DOTTED_LINE_GAP = Inr 0 \<and>
   draw_dotted_line sqrt_double (0, 0) (5, 0) GUIDELINE_WIDTH DOTTED_LINE_GAP = Inr []"
  by code_simp


text \<open>
  The dash endpoints are doubles. On a horizontal line of 37 pixels the count is 3, and
  the second dash starts at the double nearest to 37/3, not at 37/3.
\<close>

lemma second_dash_of_a_37_pixel_line:
  "num_dots sqrt_double (0, 0) (37, 0) GUIDELINE_WIDTH DOTTED_LINE_GAP = Inr 3 \<and>
   dash (0, 0) (37, 0) 3 1 = Inr ((6943049425529515 / 2 ^ 49, 0), (37 / 2, 0)) \<and>
   (6943049425529515 / 2 ^ 49 :: rat) \<noteq> 37 / 3"
  by code_simp


section \<open>The dashes against the exact points\<close>

lemma scaled_by_fraction:
  fixes d :: int and t n :: rat
  assumes "0 \<le> t" "t \<le> n" "0 < n" "\<bar>d\<bar> < 2 ^ 32"
  shows "\<bar>of_int d * (t / n)\<bar> \<le> (2 ^ 32 :: rat)"
proof -
  have "0 \<le> t / n" "t / n \<le> 1" using assms by simp_all
  then have "\<bar>of_int d * (t / n)\<bar> \<le> \<bar>of_int d :: rat\<bar> * 1"
    unfolding abs_mult by (intro mult_left_mono) auto
  also have "\<bar>of_int d :: rat\<bar> = of_int \<bar>d\<bar>" by simp
  also have "(of_int \<bar>d\<bar> :: rat) \<le> of_int (2 ^ 32)"
    using assms(4) by (simp only: of_int_le_iff)
  finally show ?thesis by simp
qed

lemma add_offset_error:
  fixes s :: int and r x0 :: rat
  assumes "\<bar>s\<bar> < 2 ^ 31" "\<bar>x0\<bar> \<le> 2 ^ 32" "\<bar>r - x0\<bar> \<le> e" "e \<le> 3 / 2 ^ 21"
  shows "\<bar>float_add (float_of_int s) r - (of_int s + x0)\<bar> \<le> e + 1 / 2 ^ 20"
proof -
  have fs: "float_of_int s = of_int s" using assms(1) by (intro float_of_int_exact_abs) simp
  have "(of_int \<bar>s\<bar> :: rat) \<le> of_int (2 ^ 31)" using assms(1) by (simp only: of_int_le_iff)
  then have sb: "\<bar>of_int s :: rat\<bar> \<le> 2 ^ 31" by simp
  have sb': "\<bar>of_int s :: rat\<bar> \<le> 2147483648" using sb by simp
  have x0': "\<bar>x0\<bar> \<le> 4294967296" using assms(2) by simp
  have e': "e \<le> 1" using assms(4) by simp
  have "\<bar>r\<bar> \<le> \<bar>x0\<bar> + \<bar>r - x0\<bar>" by linarith
  with x0' e' assms(3) have "\<bar>r\<bar> \<le> 4294967297" by linarith
  with sb' have "\<bar>of_int s + r\<bar> \<le> 8589934592" by linarith
  then have "\<bar>of_int s + r\<bar> \<le> (2 ^ 33 :: rat)" by simp
  then have "\<bar>round_double (of_int s + r) - (of_int s + r)\<bar> \<le> 2 ^ 33 / 2 ^ 53"
    by (rule round_double_error_le)
  then have "\<bar>round_double (of_int s + r) - (of_int s + r)\<bar> \<le> 1 / 2 ^ 20" by simp
  with assms(3) show ?thesis unfolding float_add_def fs by linarith
qed

lemma dash_coordinate_start:
  fixes s d i n :: int
  assumes "\<bar>s\<bar> < 2 ^ 31" "\<bar>d\<bar> < 2 ^ 32" "0 \<le> i" "i < n"
  shows "\<bar>float_add (float_of_int s) (round_double (of_int (d * i) / of_int n))
          - (of_int s + of_int d * (of_int i / of_int n))\<bar> \<le> 1 / 2 ^ 18"
proof -
  let ?x0 = "of_int d * (of_int i / of_int n) :: rat"
  have x0: "\<bar>?x0\<bar> \<le> 2 ^ 32" using assms by (intro scaled_by_fraction) auto
  have eq: "(of_int (d * i) / of_int n :: rat) = ?x0" by simp
  have "\<bar>round_double ?x0 - ?x0\<bar> \<le> 2 ^ 32 / 2 ^ 53" using x0 by (rule round_double_error_le)
  then have e: "\<bar>round_double ?x0 - ?x0\<bar> \<le> 1 / 2 ^ 21" by simp
  have "\<bar>float_add (float_of_int s) (round_double ?x0) - (of_int s + ?x0)\<bar> \<le> 1 / 2 ^ 21 + 1 / 2 ^ 20"
    using assms(1) x0 e by (rule add_offset_error) simp
  then show ?thesis unfolding eq by simp
qed

lemma dash_coordinate_end:
  fixes s d i n :: int
  assumes "\<bar>s\<bar> < 2 ^ 31" "\<bar>d\<bar> < 2 ^ 32" "0 \<le> i" "i < n" "n \<le> 2 ^ 52"
  shows "\<exists>r. float_truediv (float_mul (float_of_int d) (float_add (float_of_int i) (1 / 2)))
                 (float_of_int n) = Inr r \<and>
             \<bar>float_add (float_of_int s) r
               - (of_int s + of_int d * ((of_int i + 1 / 2) / of_int n))\<bar> \<le> 1 / 2 ^ 18"
proof -
  let ?t = "of_int i + 1 / 2 :: rat"
  let ?x0 = "of_int d * (?t / of_int n) :: rat"
  let ?p = "round_double (of_int d * ?t)"
  have npos: "(0::rat) < of_int n" using assms by simp
  have fn: "float_of_int n = of_int n" using assms by (intro float_of_int_exact_abs) auto
  have fd: "float_of_int d = of_int d" using assms by (intro float_of_int_exact_abs) auto
  have ft: "float_add (float_of_int i) (1 / 2) = ?t"
    using assms by (intro index_plus_half_exact) auto
  have "of_int (i + 1) \<le> (of_int n :: rat)" using assms(4) by (simp only: of_int_le_iff)
  then have tn: "?t \<le> of_int n" by simp
  have t0: "0 \<le> ?t" using assms(3) by simp
  have x0: "\<bar>?x0\<bar> \<le> 2 ^ 32" using t0 tn npos assms(2) by (rule scaled_by_fraction)
  define b where "b = of_int d * ?t"
  define a where "a = ?p - b"
  define m :: rat where "m = of_int n"
  have mpos: "0 < m" using npos by (simp add: m_def)
  have A: "\<bar>a\<bar> \<le> \<bar>b\<bar> / 2 ^ 53" unfolding a_def b_def by (rule round_double_error)
  have B: "?p / of_int n - ?x0 = a / m"
    by (simp add: a_def b_def m_def diff_divide_distrib)
  have C: "\<bar>?x0\<bar> = \<bar>b\<bar> / m"
    using mpos by (simp add: b_def m_def abs_mult abs_divide)
  have "\<bar>a / m\<bar> = \<bar>a\<bar> / m" using mpos by (simp add: abs_divide)
  also have "\<dots> \<le> (\<bar>b\<bar> / 2 ^ 53) / m" using A mpos by (intro divide_right_mono) auto
  also have "\<dots> = (\<bar>b\<bar> / m) / 2 ^ 53" by (simp add: ac_simps)
  finally have "\<bar>?p / of_int n - ?x0\<bar> \<le> \<bar>?x0\<bar> / 2 ^ 53" by (simp only: B C)
  also have "\<dots> \<le> 2 ^ 32 / 2 ^ 53" using x0 by (simp add: divide_right_mono)
  finally have e1: "\<bar>?p / of_int n - ?x0\<bar> \<le> 1 / 2 ^ 21" by simp
  have "\<bar>?p / of_int n\<bar> \<le> \<bar>?x0\<bar> + \<bar>?p / of_int n - ?x0\<bar>" by linarith
  with x0 e1 have "\<bar>?p / of_int n\<bar> \<le> 2 ^ 32 + 1 / 2 ^ 21" by linarith
  also have "\<dots> \<le> (2 ^ 33 :: rat)" by simp
  finally have "\<bar>?p / of_int n\<bar> \<le> 2 ^ 33" .
  then have "\<bar>round_double (?p / of_int n) - ?p / of_int n\<bar> \<le> 2 ^ 33 / 2 ^ 53"
    by (rule round_double_error_le)
  then have e2: "\<bar>round_double (?p / of_int n) - ?p / of_int n\<bar> \<le> 1 / 2 ^ 20" by simp
  from e1 e2 have "\<bar>round_double (?p / of_int n) - ?x0\<bar> \<le> 1 / 2 ^ 21 + 1 / 2 ^ 20"
    by linarith
  then have e3: "\<bar>round_double (?p / of_int n) - ?x0\<bar> \<le> 3 / 2 ^ 21" by simp
  have "\<bar>float_add (float_of_int s) (round_double (?p / of_int n)) - (of_int s + ?x0)\<bar>
          \<le> 3 / 2 ^ 21 + 1 / 2 ^ 20"
    using assms(1) x0 e3 by (rule add_offset_error) simp
  then have "\<bar>float_add (float_of_int s) (round_double (?p / of_int n)) - (of_int s + ?x0)\<bar>
          \<le> 1 / 2 ^ 18" by simp
  moreover have "float_truediv (float_mul (float_of_int d) (float_add (float_of_int i) (1 / 2)))
                 (float_of_int n) = Inr (round_double (?p / of_int n))"
    using npos by (simp add: float_truediv_def float_mul_def fn fd ft)
  ultimately show ?thesis by blast
qed

lemma for_each_map:
  assumes "\<And>x. x \<in> set xs \<Longrightarrow> f x = Inr (g x)"
  shows "for_each f xs = Inr (map g xs)"
  using assms by (induction xs) simp_all

lemma coordinate_difference:
  fixes a b :: int
  assumes "\<bar>a\<bar> < 2 ^ 31" "\<bar>b\<bar> < 2 ^ 31"
  shows "\<bar>b - a\<bar> < 2 ^ 32"
  using assms by simp

lemma dash_close:
  assumes "\<bar>fst start_xy\<bar> < 2 ^ 31" "\<bar>snd start_xy\<bar> < 2 ^ 31"
    and "\<bar>fst end_xy\<bar> < 2 ^ 31" "\<bar>snd end_xy\<bar> < 2 ^ 31"
    and "0 \<le> i" "i < n" "n \<le> 2 ^ 52"
  shows "\<exists>p0 p1. dash start_xy end_xy n i = Inr (p0, p1) \<and>
           close_to (1 / 2 ^ 18) p0 (point_at start_xy end_xy (of_int i / of_int n)) \<and>
           close_to (1 / 2 ^ 18) p1 (point_at start_xy end_xy ((of_int i + 1 / 2) / of_int n))"
proof -
  define dx where "dx = fst end_xy - fst start_xy"
  define dy where "dy = snd end_xy - snd start_xy"
  have dx: "\<bar>dx\<bar> < 2 ^ 32" unfolding dx_def using assms(1,3) by (rule coordinate_difference)
  have dy: "\<bar>dy\<bar> < 2 ^ 32" unfolding dy_def using assms(2,4) by (rule coordinate_difference)
  have n0: "n \<noteq> 0" using assms by simp
  from dash_coordinate_end[OF assms(1) dx assms(5,6,7)] obtain rx where
    rx: "float_truediv (float_mul (float_of_int dx) (float_add (float_of_int i) (1 / 2)))
           (float_of_int n) = Inr rx"
        "\<bar>float_add (float_of_int (fst start_xy)) rx
           - (of_int (fst start_xy) + of_int dx * ((of_int i + 1 / 2) / of_int n))\<bar> \<le> 1 / 2 ^ 18"
    by blast
  from dash_coordinate_end[OF assms(2) dy assms(5,6,7)] obtain ry where
    ry: "float_truediv (float_mul (float_of_int dy) (float_add (float_of_int i) (1 / 2)))
           (float_of_int n) = Inr ry"
        "\<bar>float_add (float_of_int (snd start_xy)) ry
           - (of_int (snd start_xy) + of_int dy * ((of_int i + 1 / 2) / of_int n))\<bar> \<le> 1 / 2 ^ 18"
    by blast
  have d: "dash start_xy end_xy n i =
      Inr ((float_add (float_of_int (fst start_xy)) (round_double (of_int (dx * i) / of_int n)),
            float_add (float_of_int (snd start_xy)) (round_double (of_int (dy * i) / of_int n))),
           (float_add (float_of_int (fst start_xy)) rx,
            float_add (float_of_int (snd start_xy)) ry))"
    using n0 rx(1) ry(1)
    by (simp add: dash_def Let_def int_truediv_def sum_bind_def flip: dx_def dy_def)
  show ?thesis
    unfolding d
    using dash_coordinate_start[OF assms(1) dx assms(5,6)]
          dash_coordinate_start[OF assms(2) dy assms(5,6)] rx(2) ry(2)
    by (simp add: close_to_def point_at_def flip: dx_def dy_def)
qed

lemma euclidean_length_bounds:
  assumes "\<bar>fst start_xy\<bar> < 2 ^ 31" "\<bar>snd start_xy\<bar> < 2 ^ 31"
    and "\<bar>fst end_xy\<bar> < 2 ^ 31" "\<bar>snd end_xy\<bar> < 2 ^ 31"
  shows "0 \<le> euclidean_length start_xy end_xy" "euclidean_length start_xy end_xy \<le> 2 ^ 33"
proof -
  define dx where "dx = fst end_xy - fst start_xy"
  define dy where "dy = snd end_xy - snd start_xy"
  have dx: "\<bar>dx\<bar> < 2 ^ 32" unfolding dx_def using assms(1,3) by (rule coordinate_difference)
  have dy: "\<bar>dy\<bar> < 2 ^ 32" unfolding dy_def using assms(2,4) by (rule coordinate_difference)
  have "\<bar>dx\<bar> ^ 2 \<le> (2 ^ 32) ^ 2" using dx by (intro power_mono) auto
  then have x2: "dx ^ 2 \<le> 2 ^ 64" by simp
  have "\<bar>dy\<bar> ^ 2 \<le> (2 ^ 32) ^ 2" using dy by (intro power_mono) auto
  then have y2: "dy ^ 2 \<le> 2 ^ 64" by simp
  have "dx ^ 2 + dy ^ 2 \<le> 2 ^ 66" using x2 y2 by simp
  then have "(of_int (dx ^ 2 + dy ^ 2) :: real) \<le> of_int (2 ^ 66)" by (simp only: of_int_le_iff)
  then have "(of_int (dx ^ 2 + dy ^ 2) :: real) \<le> (2 ^ 33) ^ 2" by simp
  then have "sqrt (of_int (dx ^ 2 + dy ^ 2)) \<le> sqrt ((2 ^ 33) ^ 2)"
    by (simp only: real_sqrt_le_iff)
  then show "euclidean_length start_xy end_xy \<le> 2 ^ 33"
    by (simp add: euclidean_length_def dx_def dy_def)
  show "0 \<le> euclidean_length start_xy end_xy"
    by (simp add: euclidean_length_def)
qed

lemma relative_error_bounds:
  fixes x y c :: real
  assumes "\<bar>y - x\<bar> \<le> x / c"
  shows "y \<le> x * (1 + 1 / c)" "x * (1 - 1 / c) \<le> y"
proof -
  have "y \<le> x + x / c" "x - x / c \<le> y" using assms by linarith+
  then show "y \<le> x * (1 + 1 / c)" "x * (1 - 1 / c) \<le> y"
    by (simp_all add: algebra_simps)
qed

lemma num_dots_near_quotient:
  assumes c: "\<bar>fst start_xy\<bar> < 2 ^ 31" "\<bar>snd start_xy\<bar> < 2 ^ 31"
             "\<bar>fst end_xy\<bar> < 2 ^ 31" "\<bar>snd end_xy\<bar> < 2 ^ 31"
    and wg: "0 < wd + gap" "wd + gap < 2 ^ 31"
    and pw: "\<bar>of_rat (pow_half (float_of_int ((fst end_xy - fst start_xy) ^ 2 +
                                               (snd end_xy - snd start_xy) ^ 2)))
             - euclidean_length start_xy end_xy\<bar>
            \<le> euclidean_length start_xy end_xy / 2 ^ 51"
  shows "\<exists>n. num_dots pow_half start_xy end_xy wd gap = Inr n \<and> 0 \<le> n \<and> n \<le> 2 ^ 52 \<and>
           \<lfloor>euclidean_length start_xy end_xy / of_int (wd + gap) * (1 - 1 / 2 ^ 50)\<rfloor> \<le> n \<and>
           n \<le> \<lfloor>euclidean_length start_xy end_xy / of_int (wd + gap) * (1 + 1 / 2 ^ 50)\<rfloor>"
proof -
  define L where "L = euclidean_length start_xy end_xy"
  define len where "len = pow_half (float_of_int ((fst end_xy - fst start_xy) ^ 2 +
                                               (snd end_xy - snd start_xy) ^ 2))"
  define sg :: real where "sg = of_int (wd + gap)"
  define x where "x = len / of_int (wd + gap)"
  define q where "q = L / sg"
  have L0: "0 \<le> L" and L33: "L \<le> 2 ^ 33"
    unfolding L_def using euclidean_length_bounds[OF c] by simp_all
  have H: "\<bar>of_rat len - L\<bar> \<le> L / 2 ^ 51" using pw by (simp add: L_def len_def)
  have sg1: "1 \<le> sg" using wg(1) by (simp add: sg_def)
  then have sgpos: "0 < sg" by simp
  have q0: "0 \<le> q" using L0 sgpos by (simp add: q_def)
  have qL: "q \<le> L"
  proof -
    have "L / sg \<le> L / 1" using L0 sg1 by (intro divide_left_mono) auto
    then show ?thesis by (simp add: q_def)
  qed
  \<comment> \<open>the length that pow returned is not negative\<close>
  have "L / 2 ^ 51 \<le> L" using L0 by (simp add: field_simps)
  with H have "(0::real) \<le> of_rat len" by linarith
  then have len0: "0 \<le> len" by simp
  \<comment> \<open>the code's count\<close>
  have fs: "float_of_int (wd + gap) = of_int (wd + gap)"
    using wg by (intro float_of_int_exact_abs) auto
  have x0: "0 \<le> x" using len0 wg(1) by (simp add: x_def)
  have r0: "0 \<le> round_double x"
    using round_double_mono[of 0 x] x0 by (simp add: round_double_def)
  have ft: "float_truediv len (float_of_int (wd + gap)) = Inr (round_double x)"
    using wg(1) by (simp add: float_truediv_def fs x_def)
  have "num_dots pow_half start_xy end_xy wd gap =
          sum_bind (float_truediv len (float_of_int (wd + gap))) (\<lambda>q. Inr (py_int q))"
    by (simp add: num_dots_def Let_def len_def)
  then have nd: "num_dots pow_half start_xy end_xy wd gap = Inr \<lfloor>round_double x\<rfloor>"
    using r0 by (simp add: ft py_int_def)
  \<comment> \<open>the rounded quotient against the exact one\<close>
  have "\<bar>round_double x - x\<bar> \<le> \<bar>x\<bar> / 2 ^ 53" by (rule round_double_error)
  then have ex: "\<bar>round_double x - x\<bar> \<le> x / 2 ^ 53" using x0 by simp
  define X :: real where "X = of_rat x"
  define R :: real where "R = of_rat (round_double x)"
  have "(of_rat \<bar>round_double x - x\<bar> :: real) \<le> of_rat (x / 2 ^ 53)"
    using ex by (simp only: of_rat_less_eq)
  moreover have "(of_rat \<bar>round_double x - x\<bar> :: real) = \<bar>R - X\<bar>"
    unfolding R_def X_def by (simp only: abs_of_rat flip: of_rat_diff)
  moreover have "(of_rat (x / 2 ^ 53) :: real) = X / 2 ^ 53"
    unfolding X_def by (simp add: of_rat_divide of_rat_power)
  ultimately have eX: "\<bar>R - X\<bar> \<le> X / 2 ^ 53" by simp
  have Xeq: "X = of_rat len / sg"
    by (simp add: X_def x_def sg_def of_rat_divide of_rat_add)
  have "X - q = (of_rat len - L) / sg" by (simp add: Xeq q_def diff_divide_distrib)
  then have "\<bar>X - q\<bar> = \<bar>of_rat len - L\<bar> / sg" using sgpos by (simp add: abs_divide)
  also have "\<dots> \<le> (L / 2 ^ 51) / sg" using H sgpos by (intro divide_right_mono) auto
  also have "\<dots> = q / 2 ^ 51" by (simp add: q_def)
  finally have eq: "\<bar>X - q\<bar> \<le> q / 2 ^ 51" .
  have X0: "0 \<le> X" using x0 by (simp add: X_def)
  have Xhi: "X \<le> q * (1 + 1 / 2 ^ 51)" using eq by (rule relative_error_bounds)
  have Xlo: "q * (1 - 1 / 2 ^ 51) \<le> X" using eq by (rule relative_error_bounds)
  have Rhi: "R \<le> q * (1 + 1 / 2 ^ 50)"
  proof -
    have "R \<le> X * (1 + 1 / 2 ^ 53)" using eX by (rule relative_error_bounds)
    also have "\<dots> \<le> (q * (1 + 1 / 2 ^ 51)) * (1 + 1 / 2 ^ 53)"
      using Xhi by (intro mult_right_mono) auto
    also have "\<dots> = q * ((1 + 1 / 2 ^ 51) * (1 + 1 / 2 ^ 53))" by (simp only: mult.assoc)
    also have "\<dots> \<le> q * (1 + 1 / 2 ^ 50)"
      using q0 by (intro mult_left_mono) simp_all
    finally show ?thesis .
  qed
  have Rlo: "q * (1 - 1 / 2 ^ 50) \<le> R"
  proof -
    have "q * (1 - 1 / 2 ^ 50) \<le> q * ((1 - 1 / 2 ^ 51) * (1 - 1 / 2 ^ 53))"
      using q0 by (intro mult_left_mono) simp_all
    also have "\<dots> = (q * (1 - 1 / 2 ^ 51)) * (1 - 1 / 2 ^ 53)" by (simp only: mult.assoc)
    also have "\<dots> \<le> X * (1 - 1 / 2 ^ 53)"
      using Xlo by (intro mult_right_mono) auto
    also have "\<dots> \<le> R" using eX by (rule relative_error_bounds)
    finally show ?thesis .
  qed
  have fl: "\<lfloor>round_double x\<rfloor> = \<lfloor>R\<rfloor>" by (simp add: R_def)
  have lo: "\<lfloor>q * (1 - 1 / 2 ^ 50)\<rfloor> \<le> \<lfloor>R\<rfloor>" using Rlo by (rule floor_mono)
  have hi: "\<lfloor>R\<rfloor> \<le> \<lfloor>q * (1 + 1 / 2 ^ 50)\<rfloor>" using Rhi by (rule floor_mono)
  have n0: "0 \<le> \<lfloor>round_double x\<rfloor>" using r0 by simp
  have "q * (1 + 1 / 2 ^ 50) \<le> q * 2" using q0 by (intro mult_left_mono) simp_all
  also have "\<dots> \<le> 2 ^ 33 * 2" using qL L33 by simp
  finally have "R \<le> 2 ^ 34" using Rhi by simp
  then have "\<lfloor>R\<rfloor> \<le> \<lfloor>2 ^ 34 :: real\<rfloor>" by (rule floor_mono)
  then have "\<lfloor>R\<rfloor> \<le> 2 ^ 34" by simp
  then have n52: "\<lfloor>round_double x\<rfloor> \<le> 2 ^ 52" unfolding fl by simp
  show ?thesis
    using nd n0 n52 lo hi unfolding fl by (auto simp: q_def L_def sg_def)
qed

text \<open>
  C7, as the code computes it. Take endpoints with coordinates below \<open>2\<^sup>3\<^sup>1\<close> in
  magnitude, \<open>0 < width + gap < 2\<^sup>3\<^sup>1\<close>, and a \<open>pow\<close> whose result for \<open>dx\<^sup>2 + dy\<^sup>2\<close> is
  within the relative error \<open>2\<^sup>-\<^sup>5\<^sup>1\<close> of the Euclidean length \<open>L\<close>. Then the count \<open>n\<close> the
  code computes lies between the floors of \<open>L / (width + gap)\<close> scaled by \<open>1 - 2\<^sup>-\<^sup>5\<^sup>0\<close>
  and by \<open>1 + 2\<^sup>-\<^sup>5\<^sup>0\<close>, exactly \<open>n\<close> dashes are drawn, and the \<open>i\<close>-th dash runs from the
  point at parameter \<open>i/n\<close> to the point at parameter \<open>(i + 0.5)/n\<close> along the segment,
  each coordinate being a double within \<open>2\<^sup>-\<^sup>1\<^sup>8\<close> of the exact value.
\<close>

theorem dotted_line_dashes_up_to_rounding:
  assumes c: "\<bar>fst start_xy\<bar> < 2 ^ 31" "\<bar>snd start_xy\<bar> < 2 ^ 31"
             "\<bar>fst end_xy\<bar> < 2 ^ 31" "\<bar>snd end_xy\<bar> < 2 ^ 31"
    and wg: "0 < wd + gap" "wd + gap < 2 ^ 31"
    and pw: "\<bar>of_rat (pow_half (float_of_int ((fst end_xy - fst start_xy) ^ 2 +
                                               (snd end_xy - snd start_xy) ^ 2)))
             - euclidean_length start_xy end_xy\<bar>
            \<le> euclidean_length start_xy end_xy / 2 ^ 51"
  shows "\<exists>n ds.
           num_dots pow_half start_xy end_xy wd gap = Inr n \<and>
           \<lfloor>euclidean_length start_xy end_xy / of_int (wd + gap) * (1 - 1 / 2 ^ 50)\<rfloor> \<le> n \<and>
           n \<le> \<lfloor>euclidean_length start_xy end_xy / of_int (wd + gap) * (1 + 1 / 2 ^ 50)\<rfloor> \<and>
           draw_dotted_line pow_half start_xy end_xy wd gap = Inr ds \<and>
           int (length ds) = n \<and>
           (\<forall>i. 0 \<le> i \<and> i < n \<longrightarrow>
              close_to (1 / 2 ^ 18) (fst (ds ! nat i))
                (point_at start_xy end_xy (of_int i / of_int n)) \<and>
              close_to (1 / 2 ^ 18) (snd (ds ! nat i))
                (point_at start_xy end_xy ((of_int i + 1 / 2) / of_int n)))"
proof -
  from num_dots_near_quotient[where start_xy = start_xy and end_xy = end_xy and wd = wd
      and gap = gap and pow_half = pow_half, OF c wg pw] obtain n where
    n: "num_dots pow_half start_xy end_xy wd gap = Inr n" "0 \<le> n" "n \<le> 2 ^ 52"
       "\<lfloor>euclidean_length start_xy end_xy / of_int (wd + gap) * (1 - 1 / 2 ^ 50)\<rfloor> \<le> n"
       "n \<le> \<lfloor>euclidean_length start_xy end_xy / of_int (wd + gap) * (1 + 1 / 2 ^ 50)\<rfloor>"
    by blast
  define g where "g i = projr (dash start_xy end_xy n i)" for i
  have close: "dash start_xy end_xy n i = Inr (g i) \<and>
           close_to (1 / 2 ^ 18) (fst (g i)) (point_at start_xy end_xy (of_int i / of_int n)) \<and>
           close_to (1 / 2 ^ 18) (snd (g i))
             (point_at start_xy end_xy ((of_int i + 1 / 2) / of_int n))"
    if "0 \<le> i" "i < n" for i
  proof -
    from dash_close[where start_xy = start_xy and end_xy = end_xy and i = i and n = n,
        OF c that n(3)] obtain p0 p1 where
      "dash start_xy end_xy n i = Inr (p0, p1)"
      "close_to (1 / 2 ^ 18) p0 (point_at start_xy end_xy (of_int i / of_int n))"
      "close_to (1 / 2 ^ 18) p1 (point_at start_xy end_xy ((of_int i + 1 / 2) / of_int n))"
      by blast
    then show ?thesis by (simp add: g_def)
  qed
  have "for_each (dash start_xy end_xy n) [0..n - 1] = Inr (map g [0..n - 1])"
  proof (rule for_each_map)
    fix i assume "i \<in> set [0..n - 1]"
    then have "0 \<le> i" "i < n" by auto
    then show "dash start_xy end_xy n i = Inr (g i)" using close by blast
  qed
  then have ds: "draw_dotted_line pow_half start_xy end_xy wd gap = Inr (map g [0..n - 1])"
    by (simp add: draw_dotted_line_def n(1))
  have len: "int (length (map g [0..n - 1])) = n" using n(2) by simp
  have nth: "map g [0..n - 1] ! nat i = g i" if "0 \<le> i" "i < n" for i
  proof -
    have "nat i < length [0..n - 1]" using that by simp
    then have "map g [0..n - 1] ! nat i = g ([0..n - 1] ! nat i)" by (rule nth_map)
    also have "[0..n - 1] ! nat i = 0 + int (nat i)" using that by (intro nth_upto) simp
    finally show ?thesis using that by simp
  qed
  show ?thesis
  proof (intro exI conjI allI impI)
    show "num_dots pow_half start_xy end_xy wd gap = Inr n" by (rule n(1))
    show "draw_dotted_line pow_half start_xy end_xy wd gap = Inr (map g [0..n - 1])" by (rule ds)
    show "int (length (map g [0..n - 1])) = n" by (rule len)
  next
    fix i assume "0 \<le> i \<and> i < n"
    then have i: "0 \<le> i" "i < n" by simp_all
    show "close_to (1 / 2 ^ 18) (fst (map g [0..n - 1] ! nat i))
            (point_at start_xy end_xy (of_int i / of_int n))"
      unfolding nth[OF i] using close[OF i] by simp
    show "close_to (1 / 2 ^ 18) (snd (map g [0..n - 1] ! nat i))
            (point_at start_xy end_xy ((of_int i + 1 / 2) / of_int n))"
      unfolding nth[OF i] using close[OF i] by simp
  qed (rule n(4), rule n(5))
qed

lemma euclidean_length_37: "euclidean_length (0, 0) (37, 0) = 37"
proof -
  have "sqrt ((37::real) ^ 2) = 37" by simp
  then show ?thesis by (simp add: euclidean_length_def)
qed

lemma sqrt_double_1369: "sqrt_double (float_of_int 1369) = 37"
  by code_simp

theorem dotted_line_dashes_up_to_rounding_witness:
  "\<bar>fst (0::int, 0::int)\<bar> < 2 ^ 31 \<and> \<bar>snd (0::int, 0::int)\<bar> < 2 ^ 31 \<and>
   \<bar>fst (37::int, 0::int)\<bar> < 2 ^ 31 \<and> \<bar>snd (37::int, 0::int)\<bar> < 2 ^ 31 \<and>
   0 < GUIDELINE_WIDTH + DOTTED_LINE_GAP \<and> GUIDELINE_WIDTH + DOTTED_LINE_GAP < 2 ^ 31 \<and>
   \<bar>of_rat (sqrt_double (float_of_int ((37 - 0) ^ 2 + (0 - 0) ^ 2)))
      - euclidean_length (0, 0) (37, 0)\<bar> \<le> euclidean_length (0, 0) (37, 0) / 2 ^ 51 \<and>
   (\<exists>n ds.
      num_dots sqrt_double (0, 0) (37, 0) GUIDELINE_WIDTH DOTTED_LINE_GAP = Inr n \<and>
      draw_dotted_line sqrt_double (0, 0) (37, 0) GUIDELINE_WIDTH DOTTED_LINE_GAP = Inr ds \<and>
      int (length ds) = n \<and>
      (\<forall>i. 0 \<le> i \<and> i < n \<longrightarrow>
         close_to (1 / 2 ^ 18) (fst (ds ! nat i))
           (point_at (0, 0) (37, 0) (of_int i / of_int n)) \<and>
         close_to (1 / 2 ^ 18) (snd (ds ! nat i))
           (point_at (0, 0) (37, 0) ((of_int i + 1 / 2) / of_int n))))"
proof -
  have h: "\<bar>of_rat (sqrt_double (float_of_int ((fst (37::int, 0::int) - fst (0::int, 0::int)) ^ 2 +
                                      (snd (37::int, 0::int) - snd (0::int, 0::int)) ^ 2)))
      - euclidean_length (0, 0) (37, 0)\<bar> \<le> euclidean_length (0, 0) (37, 0) / 2 ^ 51"
    by (simp add: sqrt_double_1369 euclidean_length_37)
  have w: "0 < GUIDELINE_WIDTH + DOTTED_LINE_GAP" "GUIDELINE_WIDTH + DOTTED_LINE_GAP < 2 ^ 31"
    by (simp_all add: GUIDELINE_WIDTH_def DOTTED_LINE_GAP_def)
  from dotted_line_dashes_up_to_rounding
         [where start_xy = "(0, 0)" and end_xy = "(37, 0)" and wd = GUIDELINE_WIDTH
            and gap = DOTTED_LINE_GAP and pow_half = sqrt_double, OF _ _ _ _ w h]
  have "\<exists>n ds.
      num_dots sqrt_double (0, 0) (37, 0) GUIDELINE_WIDTH DOTTED_LINE_GAP = Inr n \<and>
      draw_dotted_line sqrt_double (0, 0) (37, 0) GUIDELINE_WIDTH DOTTED_LINE_GAP = Inr ds \<and>
      int (length ds) = n \<and>
      (\<forall>i. 0 \<le> i \<and> i < n \<longrightarrow>
         close_to (1 / 2 ^ 18) (fst (ds ! nat i))
           (point_at (0, 0) (37, 0) (of_int i / of_int n)) \<and>
         close_to (1 / 2 ^ 18) (snd (ds ! nat i))
           (point_at (0, 0) (37, 0) ((of_int i + 1 / 2) / of_int n)))"
    by simp blast
  with h w show ?thesis by simp
qed

lemma first_dash_of_a_37_pixel_line:
  "dash (0, 0) (37, 0) 3 0 = Inr ((0, 0), (6943049425529515 / 2 ^ 50, 0))"
  by code_simp

lemma third_dash_of_a_37_pixel_line:
  "dash (0, 0) (37, 0) 3 2 =
     Inr ((6943049425529515 / 2 ^ 48, 0), (8678811781911893 / 2 ^ 48, 0))"
  by code_simp

lemma three_dashes_of_a_37_pixel_line:
  "for_each (dash (0, 0) (37, 0) 3) [0..3 - 1] =
     Inr [((0, 0), (6943049425529515 / 2 ^ 50, 0)),
          ((6943049425529515 / 2 ^ 49, 0), (37 / 2, 0)),
          ((6943049425529515 / 2 ^ 48, 0), (8678811781911893 / 2 ^ 48, 0))]"
proof -
  have "[0..3 - 1] = [0, 1, 2 :: int]" by (simp add: upto.simps)
  then show ?thesis
    using first_dash_of_a_37_pixel_line second_dash_of_a_37_pixel_line
      third_dash_of_a_37_pixel_line
    by simp
qed

lemma floor_length_37: "\<lfloor>euclidean_length (0, 0) (37, 0) / of_int (2 + 10)\<rfloor> = 3"
  by (simp add: euclidean_length_37)

text \<open>
  The same holds whatever \<open>pow\<close> returns: if three dashes are drawn, the second one
  starts at that double.
\<close>

lemma exact_points_fail_for_every_pow:
  "\<not> (\<exists>ds. draw_dotted_line pow_half (0, 0) (37, 0) 2 10 = Inr ds \<and>
            int (length ds) = \<lfloor>euclidean_length (0, 0) (37, 0) / of_int (2 + 10)\<rfloor> \<and>
            fst (ds ! 1) = point_at (0, 0) (37, 0) (1 / 3))"
proof
  assume "\<exists>ds. draw_dotted_line pow_half (0, 0) (37, 0) 2 10 = Inr ds \<and>
            int (length ds) = \<lfloor>euclidean_length (0, 0) (37, 0) / of_int (2 + 10)\<rfloor> \<and>
            fst (ds ! 1) = point_at (0, 0) (37, 0) (1 / 3)"
  then obtain ds where
    ds: "draw_dotted_line pow_half (0, 0) (37, 0) 2 10 = Inr ds" "int (length ds) = 3"
        "fst (ds ! 1) = point_at (0, 0) (37, 0) (1 / 3)"
    unfolding floor_length_37 by blast
  obtain n where n: "num_dots pow_half (0, 0) (37, 0) 2 10 = Inr n"
    using num_dots_total[of 2 10 pow_half "(0, 0)" "(37, 0)"] by auto
  from draw_dotted_line_length[OF n] ds(1,2) have "n = 3" by auto
  with n ds(1) have "for_each (dash (0, 0) (37, 0) 3) [0..3 - 1] = Inr ds"
    by (simp add: draw_dotted_line_def)
  then have "fst (ds ! 1) = (6943049425529515 / 2 ^ 49, 0)"
    unfolding three_dashes_of_a_37_pixel_line by auto
  with ds(3) show False by (simp add: point_at_def)
qed

text \<open>
  C7 as stated fails. On the line from \<open>(0, 0)\<close> to \<open>(37, 0)\<close> with width 2 and gap 10 the
  count is \<open>floor(37 / 12) = 3\<close>, but the second dash does not start at the point at
  parameter \<open>1/3\<close>, which is \<open>(37/3, 0)\<close>: it starts at the double nearest to 37/3.
\<close>

theorem dotted_line_37_second_dash_not_exact:
  "\<lfloor>euclidean_length (0, 0) (37, 0) / of_int (2 + 10)\<rfloor> = 3 \<and>
   draw_dotted_line sqrt_double (0, 0) (37, 0) 2 10 =
     Inr [((0, 0), (6943049425529515 / 2 ^ 50, 0)),
          ((6943049425529515 / 2 ^ 49, 0), (37 / 2, 0)),
          ((6943049425529515 / 2 ^ 48, 0), (8678811781911893 / 2 ^ 48, 0))] \<and>
   point_at (0, 0) (37, 0) (of_int 1 / of_int 3) = (37 / 3, 0) \<and>
   fst ([((0, 0), (6943049425529515 / 2 ^ 50, 0)),
         ((6943049425529515 / 2 ^ 49, 0), (37 / 2, 0)),
         ((6943049425529515 / 2 ^ 48, 0), (8678811781911893 / 2 ^ 48, 0))] ! 1)
     \<noteq> point_at (0, 0) (37, 0) (of_int 1 / of_int 3)"
proof -
  have n: "num_dots sqrt_double (0, 0) (37, 0) 2 10 = Inr 3"
    using second_dash_of_a_37_pixel_line by (simp add: GUIDELINE_WIDTH_def DOTTED_LINE_GAP_def)
  have "draw_dotted_line sqrt_double (0, 0) (37, 0) 2 10 =
          for_each (dash (0, 0) (37, 0) 3) [0..3 - 1]"
    by (simp add: draw_dotted_line_def n)
  then show ?thesis
    unfolding three_dashes_of_a_37_pixel_line
    by (simp add: euclidean_length_37 point_at_def)
qed


section \<open>The centred grid and the two programs end to end\<close>

lemma place_cell_v2_ok:
  "\<exists>ds. place_cell_v2 pow_half photo layout rc =
          Inr (draw_guide (paste layout photo (cell_pos_v2 rc)) (Dashes ds))"
proof -
  have "GUIDELINE_WIDTH + DOTTED_LINE_GAP \<noteq> 0"
    by (simp add: GUIDELINE_WIDTH_def DOTTED_LINE_GAP_def)
  from draw_dotted_rectangle_total[OF this] obtain ds where
    "draw_dotted_rectangle pow_half
       (fst (cell_pos_v2 rc), snd (cell_pos_v2 rc),
        fst (cell_pos_v2 rc) + fst final_photo_size_v2,
        snd (cell_pos_v2 rc) + snd final_photo_size_v2)
       GUIDELINE_WIDTH DOTTED_LINE_GAP = Inr ds"
    by blast
  then show ?thesis
    by (auto simp: place_cell_v2_def Let_def split_beta)
qed

lemma place_cells_ok:
  "\<exists>layout'. place_cells pow_half photo layout rcs = Inr layout' \<and>
      pastes layout' = pastes layout @ map (\<lambda>rc. paste_box photo (cell_pos_v2 rc)) rcs \<and>
      size_of layout' = size_of layout \<and>
      length (guides layout') = length (guides layout) + length rcs"
proof (induction rcs arbitrary: layout)
  case Nil
  show ?case by simp
next
  case (Cons rc rcs)
  from place_cell_v2_ok obtain ds where
    step: "place_cell_v2 pow_half photo layout rc =
             Inr (draw_guide (paste layout photo (cell_pos_v2 rc)) (Dashes ds))"
    by blast
  let ?l1 = "draw_guide (paste layout photo (cell_pos_v2 rc)) (Dashes ds)"
  from Cons.IH[of ?l1] obtain layout' where
    "place_cells pow_half photo ?l1 rcs = Inr layout'"
    "pastes layout' = pastes ?l1 @ map (\<lambda>rc. paste_box photo (cell_pos_v2 rc)) rcs"
    "size_of layout' = size_of ?l1"
    "length (guides layout') = length (guides ?l1) + length rcs"
    by blast
  with step show ?case
    by (simp add: draw_guide_def paste_def size_of_def)
qed

lemma compose_grid_v2_ok:
  "\<exists>layout. compose_grid_v2 pow_half (framed_photo img) = Inr layout \<and>
      size_of layout = (1200, 1800) \<and>
      pastes layout =
        [(147, 43, 600, 614), (600, 43, 1053, 614), (147, 614, 600, 1185),
         (600, 614, 1053, 1185), (147, 1185, 600, 1756), (600, 1185, 1053, 1756)] \<and>
      length (guides layout) = 6"
proof -
  from place_cells_ok[of pow_half "framed_photo img" "new_image LAYOUT_PX" "cells GRID_ROWS GRID_COLS"]
  obtain layout where
    l: "compose_grid_v2 pow_half (framed_photo img) = Inr layout"
       "pastes layout = pastes (new_image LAYOUT_PX) @
          map (\<lambda>rc. paste_box (framed_photo img) (cell_pos_v2 rc)) (cells GRID_ROWS GRID_COLS)"
       "size_of layout = size_of (new_image LAYOUT_PX)"
       "length (guides layout) = length (guides (new_image LAYOUT_PX)) + length (cells GRID_ROWS GRID_COLS)"
    unfolding compose_grid_v2_def by blast
  have "pastes (new_image LAYOUT_PX) @
          map (\<lambda>rc. paste_box (framed_photo img) (cell_pos_v2 rc)) (cells GRID_ROWS GRID_COLS) =
        [(147, 43, 600, 614), (600, 43, 1053, 614), (147, 614, 600, 1185),
         (600, 614, 1053, 1185), (147, 1185, 600, 1756), (600, 1185, 1053, 1756)]"
    unfolding cells_grid_v2
    by (simp add: cell_pos_v2_def framed_photo_def image_defs variant_b_defs)
  moreover have "size_of (new_image LAYOUT_PX) = (1200, 1800)"
    by (simp add: image_defs LAYOUT_PX_def)
  moreover have "length (guides (new_image LAYOUT_PX)) + length (cells GRID_ROWS GRID_COLS) = 6"
    unfolding cells_grid_v2 by (simp add: new_image_def)
  ultimately show ?thesis using l by auto
qed

lemma v2_grid_rects_fit:
  "list_all (inside LAYOUT_PX)
     [(147, 43, 600, 614), (600, 43, 1053, 614), (147, 614, 600, 1185),
      (600, 614, 1053, 1185), (147, 1185, 600, 1756), (600, 1185, 1053, 1756)] \<and>
   pairwise_disjoint
     [(147, 43, 600, 614), (600, 43, 1053, 614), (147, 614, 600, 1185),
      (600, 614, 1053, 1185), (147, 1185, 600, 1756), (600, 1185, 1053, 1756)] \<and>
   list_all (\<lambda>r. rect_width r = 453 \<and> rect_height r = 571)
     [(147, 43, 600, 614), (600, 43, 1053, 614), (147, 614, 600, 1185),
      (600, 614, 1053, 1185), (147, 1185, 600, 1756), (600, 1185, 1053, 1756)]"
  by (simp add: inside_def overlap_def rect_width_def rect_height_def LAYOUT_PX_def)

text \<open>
  Variant B's grid: \<open>GRID_ROWS * GRID_COLS\<close> copies, each inside the canvas, no two
  overlapping, whatever \<open>pow\<close> returns for the guidelines.
\<close>

lemma variant_b_grid_fits:
  "\<exists>layout. compose_grid_v2 pow_half (framed_photo img) = Inr layout \<and>
      int (length (pastes layout)) = GRID_ROWS * GRID_COLS \<and>
      list_all (inside LAYOUT_PX) (pastes layout) \<and>
      pairwise_disjoint (pastes layout)"
proof -
  from compose_grid_v2_ok[of pow_half img] obtain layout where
    l: "compose_grid_v2 pow_half (framed_photo img) = Inr layout"
       "pastes layout =
        [(147, 43, 600, 614), (600, 43, 1053, 614), (147, 614, 600, 1185),
         (600, 614, 1053, 1185), (147, 1185, 600, 1756), (600, 1185, 1053, 1756)]"
    by blast
  have "int (length (pastes layout)) = GRID_ROWS * GRID_COLS"
    by (simp add: l(2) GRID_ROWS_def GRID_COLS_def)
  moreover have "list_all (inside LAYOUT_PX) (pastes layout)" "pairwise_disjoint (pastes layout)"
    unfolding l(2) using v2_grid_rects_fit by simp_all
  ultimately show ?thesis using l(1) by blast
qed

lemma crop_image_total:
  assumes "height img \<noteq> 0"
  shows "\<exists>cropped. crop_image_to_aspect_ratio img ASPECT_RATIO = Inr cropped"
  using crop_box_total[OF assms] by (auto simp: crop_image_to_aspect_ratio_def)

text \<open>
  Variant B end to end: for an input file that holds an image of positive size and a
  writable output path, the run exits with status 0 and leaves a one-page document of
  1200 by 1800 pixels with six pasted regions of 453 by 571 pixels, all inside the
  page and pairwise disjoint.
\<close>

lemma create_photo_layout_run:
  assumes "files w input = Some (ImageFile img)" "0 < width img" "0 < height img"
    and "writable w output"
  shows "\<exists>layout.
     create_photo_layout pow_half w input output =
       \<lparr>exit_status = 0,
        printed = [Cropping, Creating_layout 3 2, Success output],
        after = w\<lparr>files := (files w)(output \<mapsto> PdfFile \<lparr>pages = [layout], resolution = 300\<rparr>)\<rparr>\<rparr> \<and>
     size_of layout = (1200, 1800) \<and>
     length (pastes layout) = 6 \<and>
     list_all (inside (1200, 1800)) (pastes layout) \<and>
     pairwise_disjoint (pastes layout) \<and>
     list_all (\<lambda>r. rect_width r = 453 \<and> rect_height r = 571) (pastes layout)"
proof -
  from assms(3) have "height img \<noteq> 0" by simp
  from crop_image_total[OF this] obtain cropped where
    c: "crop_image_to_aspect_ratio img ASPECT_RATIO = Inr cropped" by blast
  from compose_grid_v2_ok[of pow_half cropped] obtain layout where
    l: "compose_grid_v2 pow_half (framed_photo cropped) = Inr layout"
       "size_of layout = (1200, 1800)"
       "pastes layout =
        [(147, 43, 600, 614), (600, 43, 1053, 614), (147, 614, 600, 1185),
         (600, 614, 1053, 1185), (147, 1185, 600, 1756), (600, 1185, 1053, 1756)]"
    by blast
  have "create_photo_layout pow_half w input output =
       \<lparr>exit_status = 0,
        printed = [Cropping, Creating_layout 3 2, Success output],
        after = w\<lparr>files := (files w)(output \<mapsto> PdfFile \<lparr>pages = [layout], resolution = 300\<rparr>)\<rparr>\<rparr>"
    using assms c l(1)
    by (simp add: create_photo_layout_def image_open_def save_pdf_def PDF_RESOLUTION_def
        GRID_ROWS_def GRID_COLS_def)
  moreover have "length (pastes layout) = 6" by (simp add: l(3))
  moreover have "list_all (inside (1200, 1800)) (pastes layout)"
    "pairwise_disjoint (pastes layout)"
    "list_all (\<lambda>r. rect_width r = 453 \<and> rect_height r = 571) (pastes layout)"
    unfolding l(3) using v2_grid_rects_fit by (simp_all add: LAYOUT_PX_def)
  ultimately show ?thesis using l(2) by blast
qed

text \<open>
  C8. When nothing is stored at the input path, \<open>create_photo_layout\<close> prints the
  "input file not found" message with the path, exits with status 1 and leaves the
  file system as it was: nothing is created at or written to the output path.
\<close>

theorem missing_input_reports_and_exits_1:
  assumes "files w input = None"
  shows "create_photo_layout pow_half w input output =
           \<lparr>exit_status = 1, printed = [Error_input_not_found input], after = w\<rparr> \<and>
         exit_status (create_photo_layout pow_half w input output) \<noteq> 0 \<and>
         files (after (create_photo_layout pow_half w input output)) = files w"
  using assms by (simp add: create_photo_layout_def image_open_def)

theorem missing_input_reports_and_exits_1_witness:
  "files \<lparr>files = (\<lambda>p. None), writable = (\<lambda>p. True)\<rparr> ''missing.jpg'' = None \<and>
   create_photo_layout sqrt_double \<lparr>files = (\<lambda>p. None), writable = (\<lambda>p. True)\<rparr>
       ''missing.jpg'' ''sheet.pdf'' =
     \<lparr>exit_status = 1, printed = [Error_input_not_found ''missing.jpg''],
      after = \<lparr>files = (\<lambda>p. None), writable = (\<lambda>p. True)\<rparr>\<rparr> \<and>
   files (after (create_photo_layout sqrt_double \<lparr>files = (\<lambda>p. None), writable = (\<lambda>p. True)\<rparr>
       ''missing.jpg'' ''sheet.pdf'')) ''sheet.pdf'' = None"
  using missing_input_reports_and_exits_1
          [of "\<lparr>files = (\<lambda>p. None), writable = (\<lambda>p. True)\<rparr>" "''missing.jpg''" sqrt_double "''sheet.pdf''"]
  by simp

lemma crop_image_1000_1500:
  "crop_image_to_aspect_ratio (new_image (1000, 1500)) aspect_target = Inr (new_image (1000, 1285))"
  by (simp add: crop_image_to_aspect_ratio_def aspect_target_eq crop_1000_1500 crop_def)

lemma compose_grid_size: "size_of (compose_grid photo) = (1200, 1800)"
  unfolding compose_grid_def cells_rows_cols
  by (simp add: place_cell_def split_beta image_defs layout_size_def)

text \<open>
  C9 on variant A. With a 1000 by 1500 image at \<open>passport_photo.jpg\<close> the script saves
  a one-page document of 1200 by 1800 pixels, but its six pasted regions are not
  pairwise disjoint and not all inside the page.
\<close>

theorem variant_a_end_to_end_regions_overlap:
  "(\<exists>layout.
      variant_a \<lparr>files = (\<lambda>p. None)(photo_path \<mapsto> ImageFile (new_image (1000, 1500))),
                 writable = (\<lambda>p. True)\<rparr> =
        \<lparr>exit_status = 0, printed = [Output_saved],
         after = \<lparr>files = ((\<lambda>p. None)(photo_path \<mapsto> ImageFile (new_image (1000, 1500))))
                            (output_pdf \<mapsto> PdfFile \<lparr>pages = [layout], resolution = 300\<rparr>),
                  writable = (\<lambda>p. True)\<rparr>\<rparr> \<and>
      size_of layout = (1200, 1800) \<and>
      pastes layout =
        [(- 40, 219, 413, 790), (373, 219, 826, 790), (786, 219, 1239, 790),
         (- 40, 1009, 413, 1580), (373, 1009, 826, 1580), (786, 1009, 1239, 1580)] \<and>
      \<not> pairwise_disjoint (pastes layout) \<and>
      \<not> list_all (inside (1200, 1800)) (pastes layout))"
proof -
  let ?layout = "compose_grid (framed (new_image (1000, 1285)))"
  have p: "pastes ?layout =
        [(- 40, 219, 413, 790), (373, 219, 826, 790), (786, 219, 1239, 790),
         (- 40, 1009, 413, 1580), (373, 1009, 826, 1580), (786, 1009, 1239, 1580)]"
    by (rule compose_grid_pastes)
  have "variant_a \<lparr>files = (\<lambda>p. None)(photo_path \<mapsto> ImageFile (new_image (1000, 1500))),
                 writable = (\<lambda>p. True)\<rparr> =
        \<lparr>exit_status = 0, printed = [Output_saved],
         after = \<lparr>files = ((\<lambda>p. None)(photo_path \<mapsto> ImageFile (new_image (1000, 1500))))
                            (output_pdf \<mapsto> PdfFile \<lparr>pages = [?layout], resolution = 300\<rparr>),
                  writable = (\<lambda>p. True)\<rparr>\<rparr>"
    by (simp add: variant_a_def image_open_def crop_image_1000_1500 save_pdf_def)
  moreover have "size_of ?layout = (1200, 1800)" by (rule compose_grid_size)
  moreover have "\<not> pairwise_disjoint (pastes ?layout)" "\<not> list_all (inside (1200, 1800)) (pastes ?layout)"
    unfolding p by (simp_all add: overlap_def inside_def)
  ultimately show ?thesis using p by blast
qed

end
